theory Spec2Isabelle
  imports Main "HOL-Library.Sublist"
begin

section \<open>Longest common subsequence: the session of golcs\<close>

text \<open>
  The Go package keeps two slices and three cached results in one struct and computes
  the dynamic-programming table, the aligned index pairs and the values of a longest
  common subsequence on demand. The model below follows \<^verbatim>\<open>golcs.go\<close> function by
  function (the second source file holds the same methods, on an exported struct). The
  struct is a record, a \<^verbatim>\<open>nil\<close> cache field is \<open>None\<close> (a non-nil slice of length zero is
  \<open>Some []\<close>), the methods with a pointer receiver take the session and return it updated,
  and the loops are recursive functions.

  Go's \<^verbatim>\<open>int\<close> is modelled by \<open>int\<close>: every number the code computes lies between \<open>-1\<close>
  and the length of a slice plus one. Loop counters, which the loop conditions keep
  non-negative, are \<open>nat\<close>.

  \<^verbatim>\<open>reflect.DeepEqual\<close> belongs to Go's standard library; the functions take it as the
  parameter \<open>eq\<close>. The left and right slices are only measured and read, so a \<^verbatim>\<open>nil\<close>
  input slice is the empty list.
\<close>

subsection \<open>Errors and cancellation\<close>

text \<open>
  A \<^verbatim>\<open>context.Context\<close> is observed only by the \<^verbatim>\<open>select\<close> at the head of the outer
  loop of \<^verbatim>\<open>TableContext\<close>. It is modelled by what the successive polls of one call
  observe: \<open>ctx k = None\<close> when the \<open>k\<close>-th poll (counted from 0) finds \<^verbatim>\<open>Done()\<close>
  still open, and \<open>ctx k = Some e\<close> when it finds it closed and \<^verbatim>\<open>ctx.Err()\<close> is \<open>e\<close>.
\<close>

datatype ctx_error = Canceled | DeadlineExceeded

text \<open>An index out of range and a negative length given to \<^verbatim>\<open>make\<close> panic.\<close>

datatype error = Cancelled ctx_error | Panic

type_synonym ctx = "nat \<Rightarrow> ctx_error option"

definition Background :: ctx where
  "Background = (\<lambda>k. None)"

text \<open>A signal that has fired before the call: every poll finds it closed.\<close>

definition cancelled :: "ctx_error \<Rightarrow> ctx" where
  "cancelled e = (\<lambda>k. Some e)"

text \<open>A signal that fires during the call, after \<open>n\<close> polls have found it open.\<close>

definition cancelAfter :: "nat \<Rightarrow> ctx_error \<Rightarrow> ctx" where
  "cancelAfter n e = (\<lambda>k. if k < n then None else Some e)"

subsection \<open>The equality of elements\<close>

text \<open>
  The element type is \<^verbatim>\<open>E any\<close> and two elements are compared by
  \<^verbatim>\<open>reflect.DeepEqual\<close>, the parameter \<open>eq\<close> of the functions below. At the types
  whose values Go compares by \<^verbatim>\<open>==\<close> without exception (integers, strings, booleans)
  it is equality, \<open>(=)\<close>. It is not reflexive at every type: the documentation of
  \<^verbatim>\<open>reflect\<close> states that func values are deeply equal if both are nil and otherwise are
  not deeply equal, and that a floating-point NaN is not deeply equal to itself. The
  instance at a func type is \<open>DeepEqual_func\<close>; a non-nil func value is named by a
  number.
\<close>

datatype gofunc = NilFunc | FuncValue nat

definition DeepEqual_func :: "gofunc \<Rightarrow> gofunc \<Rightarrow> bool" where
  "DeepEqual_func f g = (f = NilFunc \<and> g = NilFunc)"

subsection \<open>Data\<close>

record IndexPair =
  Left :: int
  Right :: int

record 'e lcs =
  left :: "'e list"
  right :: "'e list"
  table :: "int list list option"
  indexPairs :: "IndexPair list option"
  values_cache :: "'e list option"

definition New :: "'e list \<Rightarrow> 'e list \<Rightarrow> 'e lcs" where
  "New l r = \<lparr>left = l, right = r, table = None, indexPairs = None, values_cache = None\<rparr>"

subsection \<open>The table\<close>

definition max3 :: "int \<Rightarrow> int \<Rightarrow> int \<Rightarrow> int" where
  "max3 a b c = max (max a b) c"

text \<open>
  The inner loop of \<^verbatim>\<open>TableContext\<close>, from \<open>x\<close> on, in column \<open>y\<close>. The table it reads
  and writes is the one the call has just allocated, \<open>len(left) + 1\<close> rows of
  \<open>len(right) + 1\<close> cells, and \<open>1 \<le> x \<le> len(left)\<close>, \<open>1 \<le> y \<le> len(right)\<close>: every
  index is in range (lemmas \<open>dims_update\<close> and \<open>fillColumn_filled\<close> below).
\<close>

function fillColumn ::
  "('e \<Rightarrow> 'e \<Rightarrow> bool) \<Rightarrow> 'e list \<Rightarrow> 'e list \<Rightarrow> nat \<Rightarrow> nat \<Rightarrow> int list list \<Rightarrow> int list list"
where
  "fillColumn eq l r y x t =
     (if x < length l + 1 then
        (let increment = (if eq (l ! (x - 1)) (r ! (y - 1)) then 1 else 0);
             v = max3 (t ! (x - 1) ! (y - 1) + increment) (t ! (x - 1) ! y) (t ! x ! (y - 1))
         in fillColumn eq l r y (x + 1) (t[x := (t ! x)[y := v]]))
      else t)"
  by pat_completeness auto
termination
  by (relation "measure (\<lambda>(eq, l, r, y, x, t). length l + 1 - x)") auto

text \<open>The outer loop, from \<open>y\<close> on: poll number \<open>y - 1\<close>, then one column.\<close>

function fillTable ::
  "('e \<Rightarrow> 'e \<Rightarrow> bool) \<Rightarrow> ctx \<Rightarrow> 'e list \<Rightarrow> 'e list \<Rightarrow> nat \<Rightarrow> int list list
     \<Rightarrow> error + int list list"
where
  "fillTable eq ctx l r y t =
     (if y < length r + 1 then
        (case ctx (y - 1) of
           Some e \<Rightarrow> Inl (Cancelled e)
         | None \<Rightarrow> fillTable eq ctx l r (y + 1) (fillColumn eq l r y 1 t))
      else Inr t)"
  by pat_completeness auto
termination
  by (relation "measure (\<lambda>(eq, ctx, l, r, y, t). length r + 1 - y)") auto

definition TableContext ::
  "('e \<Rightarrow> 'e \<Rightarrow> bool) \<Rightarrow> ctx \<Rightarrow> 'e lcs \<Rightarrow> (error + int list list) \<times> 'e lcs"
where
  "TableContext eq ctx s =
     (case table s of
        Some t \<Rightarrow> (Inr t, s)
      | None \<Rightarrow>
          (let sizeX = length (left s) + 1;
               sizeY = length (right s) + 1;
               t0 = replicate sizeX (replicate sizeY 0)
           in case fillTable eq ctx (left s) (right s) 1 t0 of
                Inl e \<Rightarrow> (Inl e, s)
              | Inr t \<Rightarrow> (Inr t, s\<lparr>table := Some t\<rparr>)))"

text \<open>
  A read \<^verbatim>\<open>table[x][y]\<close> of a table that comes out of the cache: \<open>None\<close> where Go
  panics.
\<close>

definition cell :: "int list list \<Rightarrow> nat \<Rightarrow> nat \<Rightarrow> int option" where
  "cell t x y = (if x < length t \<and> y < length (t ! x) then Some (t ! x ! y) else None)"

definition LengthContext ::
  "('e \<Rightarrow> 'e \<Rightarrow> bool) \<Rightarrow> ctx \<Rightarrow> 'e lcs \<Rightarrow> (error + int) \<times> 'e lcs"
where
  "LengthContext eq ctx s =
     (case TableContext eq ctx s of
        (Inl e, s') \<Rightarrow> (Inl e, s')
      | (Inr t, s') \<Rightarrow>
          (case cell t (length (left s')) (length (right s')) of
             None \<Rightarrow> (Inl Panic, s')
           | Some n \<Rightarrow> (Inr n, s')))"

subsection \<open>The index pairs\<close>

text \<open>\<^verbatim>\<open>table[len(table)-1][len(table[0])-1]\<close>\<close>

definition lastCell :: "int list list \<Rightarrow> int option" where
  "lastCell t =
     (if t = [] then None
      else if t ! 0 = [] then None
      else cell t (length t - 1) (length (t ! 0) - 1))"

text \<open>The loop of \<^verbatim>\<open>IndexPairsContext\<close>, from \<open>(x, y)\<close> on.\<close>

function backtrack ::
  "('e \<Rightarrow> 'e \<Rightarrow> bool) \<Rightarrow> 'e list \<Rightarrow> 'e list \<Rightarrow> int list list \<Rightarrow> nat \<Rightarrow> nat
     \<Rightarrow> IndexPair list \<Rightarrow> error + IndexPair list"
where
  "backtrack eq l r t x y pairs =
     (if x > 0 \<and> y > 0 then
        (if eq (l ! (x - 1)) (r ! (y - 1)) then
           (case cell t x y of
              None \<Rightarrow> Inl Panic
            | Some v \<Rightarrow>
                if 0 \<le> v - 1 \<and> v - 1 < int (length pairs) then
                  backtrack eq l r t (x - 1) (y - 1)
                    (pairs[nat (v - 1) := \<lparr>Left = int x - 1, Right = int y - 1\<rparr>])
                else Inl Panic)
         else
           (case cell t (x - 1) y of
              None \<Rightarrow> Inl Panic
            | Some a \<Rightarrow>
                (case cell t x (y - 1) of
                   None \<Rightarrow> Inl Panic
                 | Some b \<Rightarrow>
                     if a \<ge> b then backtrack eq l r t (x - 1) y pairs
                     else backtrack eq l r t x (y - 1) pairs)))
      else Inr pairs)"
  by pat_completeness auto
termination
  by (relation "measure (\<lambda>(eq, l, r, t, x, y, pairs). x + y)") auto

definition IndexPairsContext ::
  "('e \<Rightarrow> 'e \<Rightarrow> bool) \<Rightarrow> ctx \<Rightarrow> 'e lcs \<Rightarrow> (error + IndexPair list) \<times> 'e lcs"
where
  "IndexPairsContext eq ctx s =
     (case indexPairs s of
        Some p \<Rightarrow> (Inr p, s)
      | None \<Rightarrow>
          (case TableContext eq ctx s of
             (Inl e, s') \<Rightarrow> (Inl e, s')
           | (Inr t, s') \<Rightarrow>
               (case lastCell t of
                  None \<Rightarrow> (Inl Panic, s')
                | Some n \<Rightarrow>
                    if n < 0 then (Inl Panic, s')
                    else
                      (case backtrack eq (left s') (right s') t
                              (length (left s')) (length (right s'))
                              (replicate (nat n) \<lparr>Left = 0, Right = 0\<rparr>) of
                         Inl e \<Rightarrow> (Inl e, s')
                       | Inr pairs \<Rightarrow> (Inr pairs, s'\<lparr>indexPairs := Some pairs\<rparr>)))))"

subsection \<open>The values\<close>

text \<open>The \<^verbatim>\<open>range\<close> loop of \<^verbatim>\<open>ValuesContext\<close>; \<open>None\<close> where \<^verbatim>\<open>left[pair.Left]\<close> panics.\<close>

fun project :: "'e list \<Rightarrow> IndexPair list \<Rightarrow> 'e list option" where
  "project l [] = Some []"
| "project l (pair # pairs) =
     (if 0 \<le> Left pair \<and> Left pair < int (length l) then
        (case project l pairs of
           None \<Rightarrow> None
         | Some vs \<Rightarrow> Some (l ! nat (Left pair) # vs))
      else None)"

definition ValuesContext ::
  "('e \<Rightarrow> 'e \<Rightarrow> bool) \<Rightarrow> ctx \<Rightarrow> 'e lcs \<Rightarrow> (error + 'e list) \<times> 'e lcs"
where
  "ValuesContext eq ctx s =
     (case values_cache s of
        Some v \<Rightarrow> (Inr v, s)
      | None \<Rightarrow>
          (case IndexPairsContext eq ctx s of
             (Inl e, s') \<Rightarrow> (Inl e, s')
           | (Inr pairs, s') \<Rightarrow>
               (case project (left s') pairs of
                  None \<Rightarrow> (Inl Panic, s')
                | Some vs \<Rightarrow> (Inr vs, s'\<lparr>values_cache := Some vs\<rparr>))))"

subsection \<open>The entry points without a context\<close>

text \<open>
  Each one calls its \<^verbatim>\<open>...Context\<close> form with \<^verbatim>\<open>context.Background()\<close> and drops the
  error: what is returned on an error is the zero value of the result (\<^verbatim>\<open>nil\<close>, \<open>None\<close>
  here, for a slice and \<open>0\<close> for the length). A panic is not an error value and is not
  dropped.
\<close>

definition dropErr :: "'r \<Rightarrow> (error + 'r) \<times> 's \<Rightarrow> (error + 'r) \<times> 's" where
  "dropErr zero res =
     (case res of
        (Inl (Cancelled e), s') \<Rightarrow> (Inr zero, s')
      | (Inl Panic, s') \<Rightarrow> (Inl Panic, s')
      | (Inr v, s') \<Rightarrow> (Inr v, s'))"

definition some_result :: "(error + 'r) \<times> 's \<Rightarrow> (error + 'r option) \<times> 's" where
  "some_result res = (case res of (Inl e, s') \<Rightarrow> (Inl e, s') | (Inr v, s') \<Rightarrow> (Inr (Some v), s'))"


definition Length :: "('e \<Rightarrow> 'e \<Rightarrow> bool) \<Rightarrow> 'e lcs \<Rightarrow> (error + int) \<times> 'e lcs" where
  "Length eq s = dropErr 0 (LengthContext eq Background s)"

definition IndexPairs :: "('e \<Rightarrow> 'e \<Rightarrow> bool) \<Rightarrow> 'e lcs \<Rightarrow> (error + IndexPair list option) \<times> 'e lcs" where
  "IndexPairs eq s = dropErr None (some_result (IndexPairsContext eq Background s))"

definition Values :: "('e \<Rightarrow> 'e \<Rightarrow> bool) \<Rightarrow> 'e lcs \<Rightarrow> (error + 'e list option) \<times> 'e lcs" where
  "Values eq s = dropErr None (some_result (ValuesContext eq Background s))"

declare fillColumn.simps [simp del] fillTable.simps [simp del] backtrack.simps [simp del]

section \<open>What the loops compute\<close>

text \<open>
  The vocabulary of the proofs. \<open>entry eq l r x y\<close> is the value that the assignment in
  the inner loop gives to \<^verbatim>\<open>table[x][y]\<close>, as a recurrence on the two indices, and
  \<open>tableSpec\<close> is the table of these values. \<open>filled eq l r t y x\<close> is the invariant of
  the two loops of \<^verbatim>\<open>TableContext\<close>: the columns before \<open>y\<close> and the rows before \<open>x\<close> of
  column \<open>y\<close> hold their entries and every other cell still holds the zero of \<^verbatim>\<open>make\<close>.
\<close>

fun entry :: "('e \<Rightarrow> 'e \<Rightarrow> bool) \<Rightarrow> 'e list \<Rightarrow> 'e list \<Rightarrow> nat \<Rightarrow> nat \<Rightarrow> int" where
  "entry eq l r 0 y = 0"
| "entry eq l r (Suc x) 0 = 0"
| "entry eq l r (Suc x) (Suc y) =
     max3 (entry eq l r x y + (if eq (l ! x) (r ! y) then 1 else 0))
          (entry eq l r x (Suc y)) (entry eq l r (Suc x) y)"

definition dims :: "nat \<Rightarrow> nat \<Rightarrow> int list list \<Rightarrow> bool" where
  "dims m n t = (length t = m + 1 \<and> (\<forall>i < m + 1. length (t ! i) = n + 1))"

definition filled ::
  "('e \<Rightarrow> 'e \<Rightarrow> bool) \<Rightarrow> 'e list \<Rightarrow> 'e list \<Rightarrow> int list list \<Rightarrow> nat \<Rightarrow> nat \<Rightarrow> bool" where
  "filled eq l r t y x =
     (dims (length l) (length r) t \<and>
      (\<forall>i \<le> length l. \<forall>j \<le> length r.
         t ! i ! j = (if j < y \<or> (j = y \<and> i < x) then entry eq l r i j else 0)))"

definition tableSpec :: "('e \<Rightarrow> 'e \<Rightarrow> bool) \<Rightarrow> 'e list \<Rightarrow> 'e list \<Rightarrow> int list list" where
  "tableSpec eq l r = map (\<lambda>x. map (\<lambda>y. entry eq l r x y) [0 ..< length r + 1]) [0 ..< length l + 1]"

text \<open>
  The reference definition of the length of a longest common subsequence:
  \<open>longestCommon l r n\<close> when some sequence that is a subsequence of both \<open>l\<close> and \<open>r\<close> has
  length \<open>n\<close> and none is longer. Under a predicate \<open>eq\<close> in the place of equality,
  \<open>as\<close> is a subsequence of the left sequence, \<open>bs\<close> one of the right sequence, and they
  agree position by position under \<open>eq\<close>; when \<open>eq\<close> is equality the two are one sequence
  (lemma \<open>lcsLength_standard\<close> below).
\<close>

definition longestCommon :: "'e list \<Rightarrow> 'e list \<Rightarrow> nat \<Rightarrow> bool" where
  "longestCommon l r n =
     ((\<exists>zs. subseq zs l \<and> subseq zs r \<and> length zs = n) \<and>
      (\<forall>zs. subseq zs l \<and> subseq zs r \<longrightarrow> length zs \<le> n))"

definition common :: "('e \<Rightarrow> 'e \<Rightarrow> bool) \<Rightarrow> 'e list \<Rightarrow> 'e list \<Rightarrow> 'e list \<Rightarrow> 'e list \<Rightarrow> bool" where
  "common eq l r as bs = (subseq as l \<and> subseq bs r \<and> list_all2 eq as bs)"

definition lcsLength :: "('e \<Rightarrow> 'e \<Rightarrow> bool) \<Rightarrow> 'e list \<Rightarrow> 'e list \<Rightarrow> nat \<Rightarrow> bool" where
  "lcsLength eq l r n =
     ((\<exists>as bs. common eq l r as bs \<and> length as = n) \<and>
      (\<forall>as bs. common eq l r as bs \<longrightarrow> length as \<le> n))"

text \<open>
  The walk of \<^verbatim>\<open>IndexPairsContext\<close> as a function of the position alone, reading the
  entries instead of the table and collecting the pairs first to last.
\<close>

function pairsSpec :: "('e \<Rightarrow> 'e \<Rightarrow> bool) \<Rightarrow> 'e list \<Rightarrow> 'e list \<Rightarrow> nat \<Rightarrow> nat \<Rightarrow> IndexPair list" where
  "pairsSpec eq l r x y =
     (if x = 0 \<or> y = 0 then []
      else if eq (l ! (x - 1)) (r ! (y - 1)) then
        pairsSpec eq l r (x - 1) (y - 1) @ [\<lparr>Left = int x - 1, Right = int y - 1\<rparr>]
      else if entry eq l r (x - 1) y \<ge> entry eq l r x (y - 1) then pairsSpec eq l r (x - 1) y
      else pairsSpec eq l r x (y - 1))"
  by pat_completeness auto
termination
  by (relation "measure (\<lambda>(eq, l, r, x, y). x + y)") auto

declare pairsSpec.simps [simp del]

definition ascending :: "IndexPair list \<Rightarrow> bool" where
  "ascending ps = sorted_wrt (\<lambda>p q. Left p < Left q \<and> Right p < Right q) ps"

definition matched :: "('e \<Rightarrow> 'e \<Rightarrow> bool) \<Rightarrow> 'e list \<Rightarrow> 'e list \<Rightarrow> nat \<Rightarrow> nat \<Rightarrow> IndexPair \<Rightarrow> bool" where
  "matched eq l r x y p =
     (0 \<le> Left p \<and> Left p < int x \<and> 0 \<le> Right p \<and> Right p < int y \<and>
      eq (l ! nat (Left p)) (r ! nat (Right p)))"

definition valuesSpec :: "('e \<Rightarrow> 'e \<Rightarrow> bool) \<Rightarrow> 'e list \<Rightarrow> 'e list \<Rightarrow> 'e list" where
  "valuesSpec eq l r = map (\<lambda>p. l ! nat (Left p)) (pairsSpec eq l r (length l) (length r))"

section \<open>Proofs\<close>

subsection \<open>The two loops fill the table with the entries\<close>

lemma entry_0_right [simp]: "entry eq l r x 0 = 0"
  by (cases x) simp_all

lemma dims_update: "dims m n t \<Longrightarrow> dims m n (t[x := (t ! x)[y := v]])"
  unfolding dims_def
proof (intro conjI allI impI)
  assume a: "length t = m + 1 \<and> (\<forall>i<m + 1. length (t ! i) = n + 1)"
  then show "length (t[x := (t ! x)[y := v]]) = m + 1" by simp
  fix i assume "i < m + 1"
  then show "length (t[x := (t ! x)[y := v]] ! i) = n + 1"
    using a by (cases "i = x") simp_all
qed

lemma nth2_update:
  "x < length t \<Longrightarrow> y < length (t ! x) \<Longrightarrow>
   t[x := (t ! x)[y := v]] ! i ! j = (if i = x \<and> j = y then v else t ! i ! j)"
  by (cases "i = x"; cases "j = y") simp_all

lemma filled_step:
  assumes f: "filled eq l r t y x" and x: "0 < x" "x \<le> length l" and y: "0 < y" "y \<le> length r"
  shows "filled eq l r
           (t[x := (t ! x)[y := max3 (t ! (x - 1) ! (y - 1) + (if eq (l ! (x - 1)) (r ! (y - 1)) then 1 else 0))
                                   (t ! (x - 1) ! y) (t ! x ! (y - 1))]]) y (Suc x)"
proof -
  obtain x' y' where x': "x = Suc x'" and y': "y = Suc y'"
    using x y by (metis Suc_pred)
  have d: "dims (length l) (length r) t" using f by (simp add: filled_def)
  have rd: "\<And>i j. i \<le> length l \<Longrightarrow> j \<le> length r \<Longrightarrow>
      t ! i ! j = (if j < y \<or> (j = y \<and> i < x) then entry eq l r i j else 0)"
    using f by (simp add: filled_def)
  have a: "t ! x' ! y' = entry eq l r x' y'" using rd[of x' y'] x y x' y' by simp
  have b: "t ! x' ! y = entry eq l r x' y" using rd[of x' y] x y x' y' by simp
  have c: "t ! x ! y' = entry eq l r x y'" using rd[of x y'] x y x' y' by simp
  let ?v = "max3 (t ! (x - 1) ! (y - 1) + (if eq (l ! (x - 1)) (r ! (y - 1)) then 1 else 0))
                                   (t ! (x - 1) ! y) (t ! x ! (y - 1))"
  have v: "?v = entry eq l r x y"
    using a b c by (simp add: x' y')
  let ?t = "t[x := (t ! x)[y := ?v]]"
  have d': "dims (length l) (length r) ?t"
    using d by (rule dims_update)
  have "\<forall>i \<le> length l. \<forall>j \<le> length r.
         ?t ! i ! j = (if j < y \<or> (j = y \<and> i < Suc x) then entry eq l r i j else 0)"
  proof (intro allI impI)
    fix i j assume ij: "i \<le> length l" "j \<le> length r"
    show "?t ! i ! j = (if j < y \<or> (j = y \<and> i < Suc x) then entry eq l r i j else 0)"
    proof (cases "i = x \<and> j = y")
      case True
      have "?t ! i ! j = ?v"
        by (subst nth2_update) (use d x y True in \<open>simp_all add: dims_def\<close>)
      then show ?thesis using True v by simp
    next
      case False
      have "?t ! i ! j = t ! i ! j"
        by (subst nth2_update) (use d x y False in \<open>auto simp: dims_def\<close>)
      then show ?thesis using rd[OF ij] False by (auto simp: less_Suc_eq)
    qed
  qed
  then show ?thesis using d' by (simp add: filled_def)
qed

lemma fillColumn_filled:
  "filled eq l r t y x \<Longrightarrow> 0 < x \<Longrightarrow> x \<le> length l + 1 \<Longrightarrow> 0 < y \<Longrightarrow> y \<le> length r \<Longrightarrow>
   filled eq l r (fillColumn eq l r y x t) y (length l + 1)"
proof (induction eq l r y x t rule: fillColumn.induct)
  case (1 eq l r y x t)
  show ?case
  proof (cases "x < length l + 1")
    case True
    let ?t = "t[x := (t ! x)[y := max3 (t ! (x - 1) ! (y - 1) + (if eq (l ! (x - 1)) (r ! (y - 1)) then 1 else 0))
                                   (t ! (x - 1) ! y) (t ! x ! (y - 1))]]"
    have s: "filled eq l r ?t y (Suc x)"
      using filled_step[OF "1.prems"(1)] "1.prems" True by simp
    have "filled eq l r (fillColumn eq l r y (x + 1) ?t) y (length l + 1)"
      using "1.IH"[OF True refl refl] s "1.prems" True by simp
    then show ?thesis using True by (subst fillColumn.simps) (simp add: Let_def)
  next
    case False
    then have "x = length l + 1" using "1.prems" by simp
    then show ?thesis using "1.prems" by (subst fillColumn.simps) simp
  qed
qed

lemma filled_next_column:
  "filled eq l r t y (length l + 1) \<Longrightarrow> filled eq l r t (Suc y) 1"
  unfolding filled_def
  by (auto simp: less_Suc_eq)

lemma filled_init:
  "filled eq l r (replicate (length l + 1) (replicate (length r + 1) 0)) 1 1"
  unfolding filled_def dims_def
  by (simp del: replicate_Suc)

lemma fillTable_filled:
  "filled eq l r t y 1 \<Longrightarrow> 0 < y \<Longrightarrow> y \<le> length r + 1 \<Longrightarrow> \<forall>k < length r. ctx k = None \<Longrightarrow>
   \<exists>t'. fillTable eq ctx l r y t = Inr t' \<and> filled eq l r t' (length r + 1) 1"
proof (induction eq ctx l r y t rule: fillTable.induct)
  case (1 eq ctx l r y t)
  show ?case
  proof (cases "y < length r + 1")
    case True
    then have c: "ctx (y - 1) = None" using "1.prems" by simp
    have "filled eq l r (fillColumn eq l r y 1 t) y (length l + 1)"
      using fillColumn_filled[OF "1.prems"(1)] "1.prems" True by simp
    then have "filled eq l r (fillColumn eq l r y 1 t) (y + 1) 1"
      using filled_next_column by simp
    then have "\<exists>t'. fillTable eq ctx l r (y + 1) (fillColumn eq l r y 1 t) = Inr t' \<and>
        filled eq l r t' (length r + 1) 1"
      using "1.IH"[OF True c] "1.prems" True by simp
    then show ?thesis using True c by (subst fillTable.simps) simp
  next
    case False
    then have "y = length r + 1" using "1.prems" by simp
    then show ?thesis using "1.prems" by (subst fillTable.simps) simp
  qed
qed

lemma filled_final:
  assumes "filled eq l r t (length r + 1) 1"
  shows "t = tableSpec eq l r"
proof (rule nth_equalityI)
  show "length t = length (tableSpec eq l r)"
    using assms by (simp add: filled_def dims_def tableSpec_def)
next
  fix i assume "i < length t"
  then have i: "i \<le> length l" "i < length l + 1" using assms by (simp_all add: filled_def dims_def)
  have len: "length (t ! i) = length r + 1" using assms i by (simp add: filled_def dims_def)
  have "t ! i = map (\<lambda>y. entry eq l r i y) [0 ..< length r + 1]"
  proof (rule nth_equalityI)
    show "length (t ! i) = length (map (\<lambda>y. entry eq l r i y) [0 ..< length r + 1])"
      using len by simp
  next
    fix j assume "j < length (t ! i)"
    then have j: "j \<le> length r" using len by simp
    have "t ! i ! j = entry eq l r i j"
      using assms i(1) j by (simp add: filled_def)
    then show "t ! i ! j = map (\<lambda>y. entry eq l r i y) [0 ..< length r + 1] ! j"
      using j by (simp add: nth_map_upt del: upt_Suc)
  qed
  then show "t ! i = tableSpec eq l r ! i"
    using i by (simp add: tableSpec_def nth_map_upt del: upt_Suc)
qed

lemma fillTable_tableSpec:
  assumes "\<forall>k < length r. ctx k = None"
  shows "fillTable eq ctx l r 1 (replicate (length l + 1) (replicate (length r + 1) 0)) = Inr (tableSpec eq l r)"
  using fillTable_filled[OF filled_init _ _ assms, of eq l] filled_final by fastforce

lemma TableContext_New:
  assumes "\<forall>k < length r. ctx k = None"
  shows "TableContext eq ctx (New l r) = (Inr (tableSpec eq l r), (New l r)\<lparr>table := Some (tableSpec eq l r)\<rparr>)"
  using fillTable_tableSpec[OF assms, of eq l]
  by (simp add: TableContext_def New_def)

subsection \<open>The entries: bounds, steps and the recurrence in two cases\<close>

lemma entry_nonneg: "0 \<le> entry eq l r x y"
  by (induction eq l r x y rule: entry.induct) (simp_all add: max3_def)

lemma entry_mono_x: "entry eq l r x y \<le> entry eq l r (Suc x) y"
  by (cases y) (simp_all add: max3_def entry_nonneg)

lemma entry_mono_y: "entry eq l r x y \<le> entry eq l r x (Suc y)"
  by (cases x) (simp_all add: max3_def)

lemma entry_step_x: "entry eq l r (Suc x) y \<le> entry eq l r x y + 1"
proof (induction y)
  case 0
  show ?case by simp
next
  case (Suc y)
  have "entry eq l r x y \<le> entry eq l r x (Suc y)" by (rule entry_mono_y)
  with Suc show ?case by (simp add: max3_def)
qed

lemma entry_step_y: "entry eq l r x (Suc y) \<le> entry eq l r x y + 1"
proof (induction x)
  case 0
  show ?case by simp
next
  case (Suc x)
  have "entry eq l r x y \<le> entry eq l r (Suc x) y" by (rule entry_mono_x)
  with Suc show ?case by (simp add: max3_def)
qed

lemma entry_match:
  "eq (l ! x) (r ! y) \<Longrightarrow> entry eq l r (Suc x) (Suc y) = entry eq l r x y + 1"
  using entry_step_x[of eq l r x y] entry_step_y[of eq l r x y]
  by (simp add: max3_def)

lemma entry_no_match:
  "\<not> eq (l ! x) (r ! y) \<Longrightarrow>
   entry eq l r (Suc x) (Suc y) = max (entry eq l r x (Suc y)) (entry eq l r (Suc x) y)"
  using entry_mono_y[of eq l r x y]
  by (simp add: max3_def)

subsection \<open>The entries are lengths of longest common subsequences\<close>

lemma subseq_snoc_cases:
  assumes "subseq xs (ys @ [y])"
  shows "subseq xs ys \<or> (\<exists>xs'. xs = xs' @ [y] \<and> subseq xs' ys)"
proof -
  from assms obtain us vs where xs: "xs = us @ vs" and us: "subseq us ys" and vs: "subseq vs [y]"
    by (auto simp: subseq_append_iff)
  from vs have "vs = [] \<or> vs = [y]"
    by (cases vs) (auto split: if_splits)
  then show ?thesis using xs us by auto
qed

lemma common_Nil [simp]: "common eq l r [] []"
  by (simp add: common_def)

lemma common_left_Nil: "common eq [] r as bs \<Longrightarrow> as = []"
  by (auto simp: common_def dest: list_emb_Nil2)

lemma common_right_Nil: "common eq l [] as bs \<Longrightarrow> as = []"
  by (auto simp: common_def dest: list_emb_Nil2)

lemma common_length: "common eq l r as bs \<Longrightarrow> length as \<le> length l"
  by (auto simp: common_def dest: list_emb_length)

lemma common_extend_left: "common eq l r as bs \<Longrightarrow> common eq (l @ [a]) r as bs"
  by (auto simp: common_def)

lemma common_extend_right: "common eq l r as bs \<Longrightarrow> common eq l (r @ [b]) as bs"
  by (auto simp: common_def)

lemma common_snoc:
  "common eq l r as bs \<Longrightarrow> eq a b \<Longrightarrow> common eq (l @ [a]) (r @ [b]) (as @ [a]) (bs @ [b])"
  by (auto simp: common_def list_all2_appendI)

lemma common_snoc_cases:
  assumes "common eq (l @ [a]) (r @ [b]) as bs"
  shows "common eq l (r @ [b]) as bs \<or> common eq (l @ [a]) r as bs \<or>
         (eq a b \<and> (\<exists>as' bs'. as = as' @ [a] \<and> bs = bs' @ [b] \<and> common eq l r as' bs'))"
proof -
  have sa: "subseq as (l @ [a])" and sb: "subseq bs (r @ [b])" and al: "list_all2 eq as bs"
    using assms by (simp_all add: common_def)
  show ?thesis
  proof (cases "subseq as l \<or> subseq bs r")
    case True
    then show ?thesis using sa sb al by (auto simp: common_def)
  next
    case False
    with subseq_snoc_cases[OF sa] subseq_snoc_cases[OF sb]
    obtain as' bs' where as: "as = as' @ [a]" "subseq as' l" and bs: "bs = bs' @ [b]" "subseq bs' r"
      by auto
    have "length as' = length bs'"
      using list_all2_lengthD[OF al] as bs by simp
    then have "list_all2 eq as' bs' \<and> eq a b"
      using al as bs by (simp add: list_all2_append)
    then show ?thesis using as bs by (auto simp: common_def)
  qed
qed

lemma entry_upper:
  "x \<le> length l \<Longrightarrow> y \<le> length r \<Longrightarrow> common eq (take x l) (take y r) as bs \<Longrightarrow>
   int (length as) \<le> entry eq l r x y"
proof (induction eq l r x y arbitrary: as bs rule: entry.induct)
  case (1 eq l r y)
  then show ?case by (auto dest: common_left_Nil)
next
  case (2 eq l r x)
  then show ?case by (auto dest: common_right_Nil)
next
  case (3 eq l r x y)
  have tl: "take (Suc x) l = take x l @ [l ! x]" and tr: "take (Suc y) r = take y r @ [r ! y]"
    using "3.prems" by (simp_all add: take_Suc_conv_app_nth)
  from "3.prems"(3) have c: "common eq (take x l @ [l ! x]) (take y r @ [r ! y]) as bs"
    by (simp add: tl tr)
  from common_snoc_cases[OF c] consider
      (up) "common eq (take x l) (take (Suc y) r) as bs"
    | (lft) "common eq (take (Suc x) l) (take y r) as bs"
    | (diag) as' bs' where "eq (l ! x) (r ! y)" "as = as' @ [l ! x]" "common eq (take x l) (take y r) as' bs'"
    by (auto simp: tl tr)
  then show ?case
  proof cases
    case up
    then have "int (length as) \<le> entry eq l r x (Suc y)"
      using "3.IH"(2) "3.prems" by simp
    then show ?thesis by (simp add: max3_def)
  next
    case lft
    then have "int (length as) \<le> entry eq l r (Suc x) y"
      using "3.IH"(3) "3.prems" by simp
    then show ?thesis by (simp add: max3_def)
  next
    case diag
    then have "int (length as') \<le> entry eq l r x y"
      using "3.IH"(1) "3.prems" by simp
    then show ?thesis using diag by (simp add: max3_def)
  qed
qed

lemma entry_attained:
  "x \<le> length l \<Longrightarrow> y \<le> length r \<Longrightarrow>
   \<exists>as bs. common eq (take x l) (take y r) as bs \<and> int (length as) = entry eq l r x y"
proof (induction eq l r x y rule: entry.induct)
  case (1 eq l r y)
  have "common eq (take 0 l) (take y r) [] []" by simp
  then show ?case by fastforce
next
  case (2 eq l r x)
  have "common eq (take (Suc x) l) (take 0 r) [] []" by simp
  then show ?case by fastforce
next
  case (3 eq l r x y)
  have tl: "take (Suc x) l = take x l @ [l ! x]" and tr: "take (Suc y) r = take y r @ [r ! y]"
    using "3.prems" by (simp_all add: take_Suc_conv_app_nth)
  let ?d = "entry eq l r x y + (if eq (l ! x) (r ! y) then 1 else 0)"
  let ?u = "entry eq l r x (Suc y)"
  let ?l = "entry eq l r (Suc x) y"
  have "entry eq l r (Suc x) (Suc y) = ?d \<or> entry eq l r (Suc x) (Suc y) = ?u
        \<or> entry eq l r (Suc x) (Suc y) = ?l"
    by (simp add: max3_def max_def)
  then consider (d) "entry eq l r (Suc x) (Suc y) = ?d" | (u) "entry eq l r (Suc x) (Suc y) = ?u"
    | (l) "entry eq l r (Suc x) (Suc y) = ?l"
    by blast
  then show ?case
  proof cases
    case d
    from "3.IH"(1) "3.prems" obtain as bs where
      ab: "common eq (take x l) (take y r) as bs" "int (length as) = entry eq l r x y"
      by auto
    show ?thesis
    proof (cases "eq (l ! x) (r ! y)")
      case True
      have "common eq (take (Suc x) l) (take (Suc y) r) (as @ [l ! x]) (bs @ [r ! y])"
        unfolding tl tr using ab(1) True by (rule common_snoc)
      moreover have "int (length (as @ [l ! x])) = entry eq l r (Suc x) (Suc y)"
        using d ab(2) True by simp
      ultimately show ?thesis by blast
    next
      case False
      have "common eq (take (Suc x) l) (take (Suc y) r) as bs"
        unfolding tl tr using ab(1) by (intro common_extend_left common_extend_right)
      moreover have "int (length as) = entry eq l r (Suc x) (Suc y)"
        using d ab(2) False by simp
      ultimately show ?thesis by blast
    qed
  next
    case u
    from "3.IH"(2) "3.prems" obtain as bs where
      ab: "common eq (take x l) (take (Suc y) r) as bs" "int (length as) = entry eq l r x (Suc y)"
      by auto
    have "common eq (take (Suc x) l) (take (Suc y) r) as bs"
      unfolding tl using ab(1) by (rule common_extend_left)
    then show ?thesis using u ab(2) by metis
  next
    case l
    from "3.IH"(3) "3.prems" obtain as bs where
      ab: "common eq (take (Suc x) l) (take y r) as bs" "int (length as) = entry eq l r (Suc x) y"
      by auto
    have "common eq (take (Suc x) l) (take (Suc y) r) as bs"
      unfolding tr using ab(1) by (rule common_extend_right)
    then show ?thesis using l ab(2) by metis
  qed
qed

lemma entry_lcsLength:
  "lcsLength eq l r (nat (entry eq l r (length l) (length r)))"
proof -
  obtain as bs where "common eq l r as bs" "int (length as) = entry eq l r (length l) (length r)"
    using entry_attained[of "length l" l "length r" r eq] by auto
  moreover have "\<And>as bs. common eq l r as bs \<Longrightarrow> int (length as) \<le> entry eq l r (length l) (length r)"
    using entry_upper[of "length l" l "length r" r eq] by simp
  ultimately show ?thesis
    unfolding lcsLength_def by (metis nat_int nat_mono)
qed

lemma lcsLength_standard: "lcsLength (=) l r n = longestCommon l r n"
  by (auto simp: lcsLength_def longestCommon_def common_def list_all2_eq [symmetric])

subsection \<open>The walk back through the table\<close>

lemma cell_tableSpec:
  "x \<le> length l \<Longrightarrow> y \<le> length r \<Longrightarrow> cell (tableSpec eq l r) x y = Some (entry eq l r x y)"
  by (simp add: cell_def tableSpec_def nth_map_upt del: upt_Suc)

lemma lastCell_tableSpec:
  "lastCell (tableSpec eq l r) = Some (entry eq l r (length l) (length r))"
proof -
  have ne: "tableSpec eq l r \<noteq> []" "tableSpec eq l r ! 0 \<noteq> []"
    by (simp_all add: tableSpec_def nth_map_upt del: upt_Suc)
  have len: "length (tableSpec eq l r) - 1 = length l" "length (tableSpec eq l r ! 0) - 1 = length r"
    by (simp_all add: tableSpec_def nth_map_upt del: upt_Suc)
  show ?thesis
    using ne len by (simp add: lastCell_def cell_tableSpec)
qed

lemma matched_mono: "matched eq l r x y p \<Longrightarrow> x \<le> x' \<Longrightarrow> y \<le> y' \<Longrightarrow> matched eq l r x' y' p"
  by (auto simp: matched_def)

lemma pairsSpec_length:
  "int (length (pairsSpec eq l r x y)) = entry eq l r x y"
proof (induction eq l r x y rule: pairsSpec.induct)
  case (1 eq l r x y)
  show ?case
  proof (cases "x = 0 \<or> y = 0")
    case True
    then show ?thesis by (subst pairsSpec.simps) auto
  next
    case False
    then obtain x' y' where xy: "x = Suc x'" "y = Suc y'"
      by (metis not0_implies_Suc)
    show ?thesis
    proof (cases "eq (l ! (x - 1)) (r ! (y - 1))")
      case True
      then have "entry eq l r x y = entry eq l r x' y' + 1"
        using entry_match[of eq l x' r y'] xy by simp
      then show ?thesis
        using "1.IH"(1)[OF False True] False True xy by (subst pairsSpec.simps) simp
    next
      case ne: False
      then have e: "entry eq l r x y = max (entry eq l r x' y) (entry eq l r x y')"
        using entry_no_match[of eq l x' r y'] xy by simp
      show ?thesis
      proof (cases "entry eq l r (x - 1) y \<ge> entry eq l r x (y - 1)")
        case True
        then show ?thesis
          using "1.IH"(2)[OF False ne True] False ne e xy by (subst pairsSpec.simps) simp
      next
        case f: False
        then show ?thesis
          using "1.IH"(3)[OF False ne f] False ne e xy by (subst pairsSpec.simps) simp
      qed
    qed
  qed
qed

lemma pairsSpec_matched:
  "x \<le> length l \<Longrightarrow> y \<le> length r \<Longrightarrow> p \<in> set (pairsSpec eq l r x y) \<Longrightarrow> matched eq l r x y p"
proof (induction eq l r x y rule: pairsSpec.induct)
  case (1 eq l r x y)
  show ?case
  proof (cases "x = 0 \<or> y = 0")
    case True
    then show ?thesis using "1.prems" by (subst (asm) pairsSpec.simps) auto
  next
    case False
    show ?thesis
    proof (cases "eq (l ! (x - 1)) (r ! (y - 1))")
      case True
      have s: "pairsSpec eq l r x y =
          pairsSpec eq l r (x - 1) (y - 1) @ [\<lparr>Left = int x - 1, Right = int y - 1\<rparr>]"
        using False True by (subst pairsSpec.simps) simp
      from "1.prems"(3) s consider (old) "p \<in> set (pairsSpec eq l r (x - 1) (y - 1))"
        | (new) "p = \<lparr>Left = int x - 1, Right = int y - 1\<rparr>" by auto
      then show ?thesis
      proof cases
        case old
        then have "matched eq l r (x - 1) (y - 1) p"
          using "1.IH"(1)[OF False True] "1.prems" by simp
        then show ?thesis by (rule matched_mono) simp_all
      next
        case new
        have "nat (int x - 1) = x - 1" "nat (int y - 1) = y - 1" by simp_all
        then show ?thesis using new True False by (simp add: matched_def)
      qed
    next
      case ne: False
      show ?thesis
      proof (cases "entry eq l r (x - 1) y \<ge> entry eq l r x (y - 1)")
        case True
        then have "pairsSpec eq l r x y = pairsSpec eq l r (x - 1) y"
          using False ne by (subst pairsSpec.simps) simp
        then have "matched eq l r (x - 1) y p"
          using "1.IH"(2)[OF False ne True] "1.prems" by simp
        then show ?thesis by (rule matched_mono) simp_all
      next
        case f: False
        then have "pairsSpec eq l r x y = pairsSpec eq l r x (y - 1)"
          using False ne by (subst pairsSpec.simps) simp
        then have "matched eq l r x (y - 1) p"
          using "1.IH"(3)[OF False ne f] "1.prems" by simp
        then show ?thesis by (rule matched_mono) simp_all
      qed
    qed
  qed
qed

lemma pairsSpec_ascending:
  "x \<le> length l \<Longrightarrow> y \<le> length r \<Longrightarrow> ascending (pairsSpec eq l r x y)"
proof (induction eq l r x y rule: pairsSpec.induct)
  case (1 eq l r x y)
  show ?case
  proof (cases "x = 0 \<or> y = 0")
    case True
    then show ?thesis by (subst pairsSpec.simps) (auto simp: ascending_def)
  next
    case False
    show ?thesis
    proof (cases "eq (l ! (x - 1)) (r ! (y - 1))")
      case True
      have s: "pairsSpec eq l r x y =
          pairsSpec eq l r (x - 1) (y - 1) @ [\<lparr>Left = int x - 1, Right = int y - 1\<rparr>]"
        using False True by (subst pairsSpec.simps) simp
      have a: "ascending (pairsSpec eq l r (x - 1) (y - 1))"
        using "1.IH"(1)[OF False True] "1.prems" by simp
      have "\<And>p. p \<in> set (pairsSpec eq l r (x - 1) (y - 1)) \<Longrightarrow> matched eq l r (x - 1) (y - 1) p"
        using pairsSpec_matched[of "x - 1" l "y - 1" r _ eq] "1.prems" by simp
      then have "\<And>p. p \<in> set (pairsSpec eq l r (x - 1) (y - 1)) \<Longrightarrow>
          Left p < int x - 1 \<and> Right p < int y - 1"
        using False by (auto simp: matched_def)
      then show ?thesis using a unfolding s ascending_def
        by (simp add: sorted_wrt_append)
    next
      case ne: False
      show ?thesis
      proof (cases "entry eq l r (x - 1) y \<ge> entry eq l r x (y - 1)")
        case True
        then have "pairsSpec eq l r x y = pairsSpec eq l r (x - 1) y"
          using False ne by (subst pairsSpec.simps) simp
        then show ?thesis
          using "1.IH"(2)[OF False ne True] "1.prems" by simp
      next
        case f: False
        then have "pairsSpec eq l r x y = pairsSpec eq l r x (y - 1)"
          using False ne by (subst pairsSpec.simps) simp
        then show ?thesis
          using "1.IH"(3)[OF False ne f] "1.prems" by simp
      qed
    qed
  qed
qed

lemma drop_update_here:
  "k < length xs \<Longrightarrow> drop k (xs[k := v]) = v # drop (Suc k) xs"
  by (metis Cons_nth_drop_Suc drop_update_cancel length_list_update lessI nth_list_update_eq)

lemma backtrack_pairsSpec:
  assumes t: "\<And>i j. i \<le> length l \<Longrightarrow> j \<le> length r \<Longrightarrow> cell t i j = Some (entry eq l r i j)"
  shows "x \<le> length l \<Longrightarrow> y \<le> length r \<Longrightarrow> entry eq l r x y \<le> int (length pairs) \<Longrightarrow>
     backtrack eq l r t x y pairs =
       Inr (pairsSpec eq l r x y @ drop (nat (entry eq l r x y)) pairs)"
  using t
proof (induction eq l r t x y pairs rule: backtrack.induct)
  case (1 eq l r t x y pairs)
  note tt = "1.prems"(4)
  show ?case
  proof (cases "x > 0 \<and> y > 0")
    case False
    then have z: "x = 0 \<or> y = 0" by simp
    then have "entry eq l r x y = 0" by auto
    then show ?thesis using z
      by (subst backtrack.simps, subst pairsSpec.simps) auto
  next
    case pos: True
    then obtain x' y' where xy: "x = Suc x'" "y = Suc y'"
      by (metis gr0_implies_Suc)
    show ?thesis
    proof (cases "eq (l ! (x - 1)) (r ! (y - 1))")
      case True
      let ?v = "entry eq l r x y"
      let ?P = "\<lparr>Left = int x - 1, Right = int y - 1\<rparr>"
      have c: "cell t x y = Some ?v" using tt "1.prems" by simp
      have v: "?v = entry eq l r x' y' + 1"
        using entry_match[of eq l x' r y'] True xy by simp
      have v0: "0 \<le> ?v - 1" using v entry_nonneg[of eq l r x' y'] by simp
      have v1: "?v - 1 < int (length pairs)" using "1.prems"(3) by simp
      have k: "nat (?v - 1) < length pairs" using v0 v1 by simp
      have "backtrack eq l r t (x - 1) (y - 1) (pairs[nat (?v - 1) := ?P]) =
          Inr (pairsSpec eq l r (x - 1) (y - 1) @
               drop (nat (entry eq l r (x - 1) (y - 1))) (pairs[nat (?v - 1) := ?P]))"
        using "1.IH"(1)[OF pos True c] v0 v1 "1.prems"(1,2) tt v xy by simp
      moreover have "nat (entry eq l r (x - 1) (y - 1)) = nat (?v - 1)" using v xy by simp
      moreover have "drop (nat (?v - 1)) (pairs[nat (?v - 1) := ?P]) = ?P # drop (Suc (nat (?v - 1))) pairs"
        using k by (rule drop_update_here)
      moreover have "Suc (nat (?v - 1)) = nat ?v" using v0 by simp
      moreover have "pairsSpec eq l r x y = pairsSpec eq l r (x - 1) (y - 1) @ [?P]"
        using pos True by (subst pairsSpec.simps) simp
      ultimately show ?thesis
        using pos True c v0 v1 by (subst backtrack.simps) simp
    next
      case ne: False
      have e: "entry eq l r x y = max (entry eq l r x' y) (entry eq l r x y')"
        using entry_no_match[of eq l x' r y'] ne xy by simp
      have ca: "cell t (x - 1) y = Some (entry eq l r (x - 1) y)"
        and cb: "cell t x (y - 1) = Some (entry eq l r x (y - 1))"
        using tt "1.prems" by simp_all
      show ?thesis
      proof (cases "entry eq l r (x - 1) y \<ge> entry eq l r x (y - 1)")
        case True
        have "backtrack eq l r t (x - 1) y pairs =
            Inr (pairsSpec eq l r (x - 1) y @ drop (nat (entry eq l r (x - 1) y)) pairs)"
          using "1.IH"(2)[OF pos ne ca cb True] "1.prems"(1,2,3) tt e True xy by simp
        moreover have "pairsSpec eq l r x y = pairsSpec eq l r (x - 1) y"
          using pos ne True by (subst pairsSpec.simps) simp
        moreover have "entry eq l r x y = entry eq l r (x - 1) y" using e True xy by simp
        ultimately show ?thesis
          using pos ne ca cb True by (subst backtrack.simps) simp
      next
        case f: False
        have "backtrack eq l r t x (y - 1) pairs =
            Inr (pairsSpec eq l r x (y - 1) @ drop (nat (entry eq l r x (y - 1))) pairs)"
          using "1.IH"(3)[OF pos ne ca cb f] "1.prems"(1,2,3) tt e f xy by simp
        moreover have "pairsSpec eq l r x y = pairsSpec eq l r x (y - 1)"
          using pos ne f by (subst pairsSpec.simps) simp
        moreover have "entry eq l r x y = entry eq l r x (y - 1)" using e f xy by simp
        ultimately show ?thesis
          using pos ne ca cb f by (subst backtrack.simps) simp
      qed
    qed
  qed
qed

subsection \<open>The entry points on a fresh session\<close>

lemma dropErr_Inr [simp]: "dropErr z (Inr v, s) = (Inr v, s)"
  by (simp add: dropErr_def)

lemma dropErr_Panic [simp]: "dropErr z (Inl Panic, s) = (Inl Panic, s)"
  by (simp add: dropErr_def)

lemma dropErr_Cancelled [simp]: "dropErr z (Inl (Cancelled e), s) = (Inr z, s)"
  by (simp add: dropErr_def)

lemma some_result_Inr [simp]: "some_result (Inr v, s) = (Inr (Some v), s)"
  by (simp add: some_result_def)

lemma some_result_Inl [simp]: "some_result (Inl e, s) = (Inl e, s)"
  by (simp add: some_result_def)

lemma New_sel [simp]:
  "left (New l r) = l" "right (New l r) = r" "table (New l r) = None"
  "indexPairs (New l r) = None" "values_cache (New l r) = None"
  by (simp_all add: New_def)

lemma Background_live: "\<forall>k < n. Background k = None"
  by (simp add: Background_def)

lemma fillTable_cancelled_first:
  "r \<noteq> [] \<Longrightarrow> ctx 0 = Some e \<Longrightarrow> fillTable eq ctx l r 1 t = Inl (Cancelled e)"
  by (subst fillTable.simps) (simp add: Suc_le_eq)

lemma fillTable_outcome:
  "filled eq l r t y 1 \<Longrightarrow> 0 < y \<Longrightarrow> y \<le> length r + 1 \<Longrightarrow>
   (\<exists>e. fillTable eq ctx l r y t = Inl (Cancelled e)) \<or>
   fillTable eq ctx l r y t = Inr (tableSpec eq l r)"
proof (induction eq ctx l r y t rule: fillTable.induct)
  case (1 eq ctx l r y t)
  show ?case
  proof (cases "y < length r + 1")
    case True
    show ?thesis
    proof (cases "ctx (y - 1)")
      case (Some e)
      then show ?thesis using True by (subst fillTable.simps) simp
    next
      case None
      have "filled eq l r (fillColumn eq l r y 1 t) y (length l + 1)"
        using fillColumn_filled[OF "1.prems"(1)] "1.prems" True by simp
      then have "filled eq l r (fillColumn eq l r y 1 t) (y + 1) 1"
        using filled_next_column by simp
      then have "(\<exists>e. fillTable eq ctx l r (y + 1) (fillColumn eq l r y 1 t) = Inl (Cancelled e)) \<or>
          fillTable eq ctx l r (y + 1) (fillColumn eq l r y 1 t) = Inr (tableSpec eq l r)"
        using "1.IH"[OF True None] True by simp
      then show ?thesis using True None
        by (subst (1 2) fillTable.simps) simp
    qed
  next
    case False
    then have "y = length r + 1" using "1.prems" by simp
    then show ?thesis using "1.prems" filled_final by (subst (1 2) fillTable.simps) auto
  qed
qed

lemma TableContext_New_outcome:
  "(\<exists>e. TableContext eq ctx (New l r) = (Inl (Cancelled e), New l r)) \<or>
   TableContext eq ctx (New l r) = (Inr (tableSpec eq l r), (New l r)\<lparr>table := Some (tableSpec eq l r)\<rparr>)"
  using fillTable_outcome[OF filled_init, where eq = eq and l = l and r = r and ctx = ctx]
  by (auto simp: TableContext_def)

lemma LengthContext_New:
  assumes "\<forall>k < length r. ctx k = None"
  shows "LengthContext eq ctx (New l r) =
     (Inr (entry eq l r (length l) (length r)), (New l r)\<lparr>table := Some (tableSpec eq l r)\<rparr>)"
  by (simp add: LengthContext_def TableContext_New[OF assms] cell_tableSpec)

lemma Length_New:
  "Length eq (New l r) =
     (Inr (entry eq l r (length l) (length r)), (New l r)\<lparr>table := Some (tableSpec eq l r)\<rparr>)"
  by (simp add: Length_def LengthContext_New[OF Background_live])

lemma IndexPairsContext_New:
  assumes "\<forall>k < length r. ctx k = None"
  shows "IndexPairsContext eq ctx (New l r) =
     (Inr (pairsSpec eq l r (length l) (length r)),
      (New l r)\<lparr>table := Some (tableSpec eq l r),
                indexPairs := Some (pairsSpec eq l r (length l) (length r))\<rparr>)"
proof -
  let ?n = "entry eq l r (length l) (length r)"
  have n: "0 \<le> ?n" by (rule entry_nonneg)
  have "backtrack eq l r (tableSpec eq l r) (length l) (length r)
          (replicate (nat ?n) \<lparr>Left = 0, Right = 0\<rparr>) =
        Inr (pairsSpec eq l r (length l) (length r) @
             drop (nat ?n) (replicate (nat ?n) \<lparr>Left = 0, Right = 0\<rparr>))"
    by (rule backtrack_pairsSpec) (use n in \<open>simp_all add: cell_tableSpec\<close>)
  then have b: "backtrack eq l r (tableSpec eq l r) (length l) (length r)
          (replicate (nat ?n) \<lparr>Left = 0, Right = 0\<rparr>) = Inr (pairsSpec eq l r (length l) (length r))"
    by simp
  show ?thesis
    using n b
    by (simp add: IndexPairsContext_def TableContext_New[OF assms] lastCell_tableSpec)
qed

lemma IndexPairs_New:
  "IndexPairs eq (New l r) =
     (Inr (Some (pairsSpec eq l r (length l) (length r))),
      (New l r)\<lparr>table := Some (tableSpec eq l r),
                indexPairs := Some (pairsSpec eq l r (length l) (length r))\<rparr>)"
  by (simp add: IndexPairs_def IndexPairsContext_New[OF Background_live])

lemma project_in_range:
  "\<forall>p \<in> set ps. 0 \<le> Left p \<and> Left p < int (length l) \<Longrightarrow>
   project l ps = Some (map (\<lambda>p. l ! nat (Left p)) ps)"
  by (induction ps) simp_all

lemma project_pairsSpec:
  "project l (pairsSpec eq l r (length l) (length r)) = Some (valuesSpec eq l r)"
  unfolding valuesSpec_def
proof (rule project_in_range, rule ballI)
  fix p assume "p \<in> set (pairsSpec eq l r (length l) (length r))"
  then have "matched eq l r (length l) (length r) p"
    by (rule pairsSpec_matched[rotated 2]) simp_all
  then show "0 \<le> Left p \<and> Left p < int (length l)"
    by (simp add: matched_def)
qed

lemma ValuesContext_New:
  assumes "\<forall>k < length r. ctx k = None"
  shows "ValuesContext eq ctx (New l r) =
     (Inr (valuesSpec eq l r),
      (New l r)\<lparr>table := Some (tableSpec eq l r),
                indexPairs := Some (pairsSpec eq l r (length l) (length r)),
                values_cache := Some (valuesSpec eq l r)\<rparr>)"
  by (simp add: ValuesContext_def IndexPairsContext_New[OF assms] project_pairsSpec)

lemma Values_New:
  "Values eq (New l r) =
     (Inr (Some (valuesSpec eq l r)),
      (New l r)\<lparr>table := Some (tableSpec eq l r),
                indexPairs := Some (pairsSpec eq l r (length l) (length r)),
                values_cache := Some (valuesSpec eq l r)\<rparr>)"
  by (simp add: Values_def ValuesContext_New[OF Background_live])

subsection \<open>Reading the table and the pairs\<close>

lemma tableSpec_nth:
  "x \<le> length l \<Longrightarrow> y \<le> length r \<Longrightarrow> tableSpec eq l r ! x ! y = entry eq l r x y"
  by (simp add: tableSpec_def nth_map_upt del: upt_Suc)

lemma tableSpec_dims:
  "length (tableSpec eq l r) = length l + 1"
  "x \<le> length l \<Longrightarrow> length (tableSpec eq l r ! x) = length r + 1"
  by (simp_all add: tableSpec_def nth_map_upt del: upt_Suc)

lemma ascending_adjacent:
  "ascending ps \<Longrightarrow> Suc i < length ps \<Longrightarrow>
   Left (ps ! i) < Left (ps ! Suc i) \<and> Right (ps ! i) < Right (ps ! Suc i)"
  unfolding ascending_def by (rule sorted_wrt_nth_less) simp_all

subsection \<open>Runs on concrete inputs\<close>

lemma scenario1_Length:
  "fst (Length (=) (New [''A'', ''B'', ''C'', ''B'', ''D'', ''A'', ''B'']
                        [''B'', ''D'', ''C'', ''A'', ''B'', ''A''])) = Inr 4"
  by code_simp

lemma small_table:
  "fst (TableContext (=) Background (New [1::nat, 2] [2, 1, 2])) = Inr [[0, 0, 0, 0], [0, 0, 1, 1], [0, 1, 1, 2]]"
  by code_simp

lemma scenario1_IndexPairs:
  "fst (IndexPairs (=) (New [''A'', ''B'', ''C'', ''B'', ''D'', ''A'', ''B'']
                            [''B'', ''D'', ''C'', ''A'', ''B'', ''A''])) =
   Inr (Some [\<lparr>Left = 1, Right = 0\<rparr>, \<lparr>Left = 2, Right = 2\<rparr>,
              \<lparr>Left = 3, Right = 4\<rparr>, \<lparr>Left = 5, Right = 5\<rparr>])"
  by code_simp

subsection \<open>Empty inputs and the outcomes under any signal\<close>

lemma entry_empty: "l = [] \<or> r = [] \<Longrightarrow> entry eq l r (length l) (length r) = 0"
  by auto

lemma pairsSpec_empty: "l = [] \<or> r = [] \<Longrightarrow> pairsSpec eq l r (length l) (length r) = []"
  by (subst pairsSpec.simps) auto

lemma valuesSpec_empty: "l = [] \<or> r = [] \<Longrightarrow> valuesSpec eq l r = []"
  by (simp add: valuesSpec_def pairsSpec_empty)

lemma valuesSpec_length: "int (length (valuesSpec eq l r)) = entry eq l r (length l) (length r)"
  by (simp add: valuesSpec_def pairsSpec_length)

lemma LengthContext_New_outcome:
  "(\<exists>e. LengthContext eq ctx (New l r) = (Inl (Cancelled e), New l r)) \<or>
   LengthContext eq ctx (New l r) =
     (Inr (entry eq l r (length l) (length r)), (New l r)\<lparr>table := Some (tableSpec eq l r)\<rparr>)"
  using TableContext_New_outcome[of eq ctx l r]
  by (auto simp: LengthContext_def cell_tableSpec)

lemma backtrack_New:
  "backtrack eq l r (tableSpec eq l r) (length l) (length r)
     (replicate (nat (entry eq l r (length l) (length r))) \<lparr>Left = 0, Right = 0\<rparr>) =
   Inr (pairsSpec eq l r (length l) (length r))"
proof -
  let ?n = "entry eq l r (length l) (length r)"
  have n: "0 \<le> ?n" by (rule entry_nonneg)
  have "backtrack eq l r (tableSpec eq l r) (length l) (length r)
          (replicate (nat ?n) \<lparr>Left = 0, Right = 0\<rparr>) =
        Inr (pairsSpec eq l r (length l) (length r) @
             drop (nat ?n) (replicate (nat ?n) \<lparr>Left = 0, Right = 0\<rparr>))"
    by (rule backtrack_pairsSpec) (use n in \<open>simp_all add: cell_tableSpec\<close>)
  then show ?thesis by simp
qed

lemma IndexPairsContext_New_outcome:
  "(\<exists>e. IndexPairsContext eq ctx (New l r) = (Inl (Cancelled e), New l r)) \<or>
   IndexPairsContext eq ctx (New l r) =
     (Inr (pairsSpec eq l r (length l) (length r)),
      (New l r)\<lparr>table := Some (tableSpec eq l r),
                indexPairs := Some (pairsSpec eq l r (length l) (length r))\<rparr>)"
  using TableContext_New_outcome[of eq ctx l r] entry_nonneg[of eq l r "length l" "length r"]
  by (auto simp: IndexPairsContext_def lastCell_tableSpec backtrack_New)

lemma ValuesContext_New_outcome:
  "(\<exists>e. ValuesContext eq ctx (New l r) = (Inl (Cancelled e), New l r)) \<or>
   ValuesContext eq ctx (New l r) =
     (Inr (valuesSpec eq l r),
      (New l r)\<lparr>table := Some (tableSpec eq l r),
                indexPairs := Some (pairsSpec eq l r (length l) (length r)),
                values_cache := Some (valuesSpec eq l r)\<rparr>)"
  using IndexPairsContext_New_outcome[of eq ctx l r]
  by (auto simp: ValuesContext_def project_pairsSpec)

lemma scenario1_Values:
  "fst (Values (=) (New [''A'', ''B'', ''C'', ''B'', ''D'', ''A'', ''B'']
                        [''B'', ''D'', ''C'', ''A'', ''B'', ''A''])) =
   Inr (Some [''B'', ''C'', ''B'', ''A''])"
  by code_simp

subsection \<open>The cache\<close>

lemma TableContext_cached: "table s = Some t \<Longrightarrow> TableContext eq ctx s = (Inr t, s)"
  by (simp add: TableContext_def)

lemma TableContext_Inr: "TableContext eq ctx s = (Inr t, s') \<Longrightarrow> table s' = Some t"
  by (auto simp: TableContext_def Let_def split: option.splits sum.splits)

lemma TableContext_Inl: "TableContext eq ctx s = (Inl e, s') \<Longrightarrow> s' = s"
  by (auto simp: TableContext_def Let_def split: option.splits sum.splits)

lemma backtrack_error: "backtrack eq l r t x y pairs = Inl e \<Longrightarrow> e = Panic"
proof (induction eq l r t x y pairs rule: backtrack.induct)
  case (1 eq l r t x y pairs)
  show ?case
  proof (cases "x > 0 \<and> y > 0")
    case False
    then show ?thesis using "1.prems" by (subst (asm) backtrack.simps) auto
  next
    case pos: True
    show ?thesis
    proof (cases "eq (l ! (x - 1)) (r ! (y - 1))")
      case True
      show ?thesis
      proof (cases "cell t x y")
        case None
        then show ?thesis using "1.prems" pos True by (subst (asm) backtrack.simps) auto
      next
        case (Some v)
        show ?thesis
        proof (cases "0 \<le> v - 1 \<and> v - 1 < int (length pairs)")
          case False
          then show ?thesis using "1.prems" pos True Some
            by (subst (asm) backtrack.simps) auto
        next
          case inr: True
          have "backtrack eq l r t (x - 1) (y - 1)
                  (pairs[nat (v - 1) := \<lparr>Left = int x - 1, Right = int y - 1\<rparr>]) = Inl e"
            using "1.prems" pos True Some inr by (subst (asm) backtrack.simps) auto
          then show ?thesis by (rule "1.IH"(1)[OF pos True Some inr])
        qed
      qed
    next
      case ne: False
      show ?thesis
      proof (cases "cell t (x - 1) y")
        case None
        then show ?thesis using "1.prems" pos ne by (subst (asm) backtrack.simps) auto
      next
        case a: (Some a)
        show ?thesis
        proof (cases "cell t x (y - 1)")
          case None
          then show ?thesis using "1.prems" pos ne a by (subst (asm) backtrack.simps) auto
        next
          case b: (Some b)
          show ?thesis
          proof (cases "a \<ge> b")
            case True
            have "backtrack eq l r t (x - 1) y pairs = Inl e"
              using "1.prems" pos ne a b True by (subst (asm) backtrack.simps) auto
            then show ?thesis by (rule "1.IH"(2)[OF pos ne a b True])
          next
            case False
            have "backtrack eq l r t x (y - 1) pairs = Inl e"
              using "1.prems" pos ne a b False by (subst (asm) backtrack.simps) auto
            then show ?thesis by (rule "1.IH"(3)[OF pos ne a b False])
          qed
        qed
      qed
    qed
  qed
qed

lemma IndexPairsContext_cached:
  "indexPairs s = Some p \<Longrightarrow> IndexPairsContext eq ctx s = (Inr p, s)"
  by (simp add: IndexPairsContext_def)

lemma IndexPairsContext_Inr:
  "IndexPairsContext eq ctx s = (Inr p, s') \<Longrightarrow> indexPairs s' = Some p"
  by (auto simp: IndexPairsContext_def split: option.splits sum.splits prod.splits if_splits)

lemma IndexPairsContext_Cancelled:
  "IndexPairsContext eq ctx s = (Inl (Cancelled e), s') \<Longrightarrow> s' = s"
  by (auto simp: IndexPairsContext_def split: option.splits sum.splits prod.splits if_splits
      dest: TableContext_Inl backtrack_error)

lemma ValuesContext_cached:
  "values_cache s = Some v \<Longrightarrow> ValuesContext eq ctx s = (Inr v, s)"
  by (simp add: ValuesContext_def)

lemma ValuesContext_Inr:
  "ValuesContext eq ctx s = (Inr v, s') \<Longrightarrow> values_cache s' = Some v"
  by (auto simp: ValuesContext_def split: option.splits sum.splits prod.splits)

lemma ValuesContext_Cancelled:
  "ValuesContext eq ctx s = (Inl (Cancelled e), s') \<Longrightarrow> s' = s"
  by (auto simp: ValuesContext_def split: option.splits sum.splits prod.splits
      dest: IndexPairsContext_Cancelled)

lemma LengthContext_Cancelled:
  "LengthContext eq ctx s = (Inl (Cancelled e), s') \<Longrightarrow> s' = s"
  by (auto simp: LengthContext_def split: option.splits sum.splits prod.splits
      dest: TableContext_Inl)

lemma fillTable_cancelled_Suc0:
  "r \<noteq> [] \<Longrightarrow> ctx 0 = Some e \<Longrightarrow> fillTable eq ctx l r (Suc 0) t = Inl (Cancelled e)"
  using fillTable_cancelled_first[of r ctx e eq l t] by simp

lemma TableContext_New_cancelled:
  "r \<noteq> [] \<Longrightarrow> ctx 0 = Some e \<Longrightarrow> TableContext eq ctx (New l r) = (Inl (Cancelled e), New l r)"
  by (simp add: TableContext_def fillTable_cancelled_Suc0)

lemma late_cancel_Values:
  "fst (ValuesContext (=) (cancelAfter 1 DeadlineExceeded) (New [''a'', ''b''] [''b'', ''a''])) =
     Inl (Cancelled DeadlineExceeded)"
  by code_simp

lemma late_cancel_IndexPairs:
  "fst (IndexPairsContext (=) (cancelAfter 1 DeadlineExceeded) (New [''a'', ''b''] [''b'', ''a''])) =
     Inl (Cancelled DeadlineExceeded)"
  by code_simp

lemma empty_right_TableContext:
  "TableContext (=) (cancelled Canceled) (New [''a''] []) =
     (Inr [[0], [0]], (New [''a''] [])\<lparr>table := Some [[0], [0]]\<rparr>)"
  by (simp add: TableContext_def fillTable.simps Let_def)

lemma empty_right_ValuesContext:
  "fst (ValuesContext (=) (cancelled Canceled) (New [''a''] [])) = Inr []"
  by code_simp




lemma two_by_two_IndexPairsContext:
  "fst (IndexPairsContext (=) Background (New [''a'', ''b''] [''b'', ''a''])) =
     Inr [\<lparr>Left = 0, Right = 1\<rparr>]"
  by code_simp

lemma two_by_two_TableContext:
  "fst (TableContext (=) Background (New [''a'', ''b''] [''b'', ''a''])) =
     Inr [[0, 0, 0], [0, 0, 1], [0, 1, 1]]"
  by code_simp

lemma two_by_two_ValuesContext:
  "fst (ValuesContext (=) Background (New [''a'', ''b''] [''b'', ''a''])) = Inr [''a'']"
  by code_simp

lemma func_Length:
  "fst (Length DeepEqual_func (New [FuncValue 0] [FuncValue 0])) = Inr 0"
  by code_simp

subsection \<open>What each accessor stores and what it keeps\<close>

lemma snd_dropErr [simp]: "snd (dropErr z res) = snd res"
  by (auto simp: dropErr_def split: prod.splits sum.splits error.splits)

lemma snd_some_result [simp]: "snd (some_result res) = snd res"
  by (auto simp: some_result_def split: prod.splits sum.splits)



















section \<open>The claims\<close>

text \<open>
  Claim C1. For every pair of sequences \<open>l\<close> (left) and \<open>r\<close> (right), \<^verbatim>\<open>Length\<close> on a fresh
  session, and \<^verbatim>\<open>LengthContext\<close> under a context that no poll of the call finds done,
  return the length of a longest common subsequence of \<open>l\<close> and \<open>r\<close> under the equality
  predicate: some common subsequence has that length and none is longer. With equality
  as the predicate this is the reference definition \<open>longestCommon\<close>.
\<close>

theorem Length_is_lcs_length:
  assumes "\<forall>k < length r. ctx k = None"
  shows "\<exists>n. fst (Length eq (New l r)) = Inr (int n) \<and>
             fst (LengthContext eq ctx (New l r)) = Inr (int n) \<and>
             lcsLength eq l r n \<and>
             (eq = (=) \<longrightarrow> longestCommon l r n)"
proof -
  let ?n = "nat (entry eq l r (length l) (length r))"
  have "int ?n = entry eq l r (length l) (length r)"
    using entry_nonneg[of eq l r "length l" "length r"] by simp
  then have "fst (Length eq (New l r)) = Inr (int ?n)"
    and "fst (LengthContext eq ctx (New l r)) = Inr (int ?n)"
    by (simp_all add: Length_New LengthContext_New[OF assms])
  moreover have n: "lcsLength eq l r ?n" by (rule entry_lcsLength)
  moreover have "eq = (=) \<longrightarrow> longestCommon l r ?n"
    using n by (auto simp: lcsLength_standard)
  ultimately show ?thesis by blast
qed

theorem Length_is_lcs_length_witness:
  "fst (Length (=) (New [''A'', ''B'', ''C'', ''B'', ''D'', ''A'', ''B'']
                        [''B'', ''D'', ''C'', ''A'', ''B'', ''A''])) = Inr 4 \<and>
   longestCommon [''A'', ''B'', ''C'', ''B'', ''D'', ''A'', ''B'']
                 [''B'', ''D'', ''C'', ''A'', ''B'', ''A''] 4"
  using Length_is_lcs_length[of "[''B'', ''D'', ''C'', ''A'', ''B'', ''A'']" Background "(=)"
          "[''A'', ''B'', ''C'', ''B'', ''D'', ''A'', ''B'']"]
        scenario1_Length
  by (auto simp: Background_def)

text \<open>
  Claim C2. For sequences of lengths \<open>m\<close> and \<open>n\<close>, the table that \<^verbatim>\<open>TableContext\<close> returns
  on a fresh session when it is not cancelled has \<open>m + 1\<close> rows of \<open>n + 1\<close> cells, row 0 and
  column 0 are zero, and for \<open>1 \<le> x \<le> m\<close> and \<open>1 \<le> y \<le> n\<close> the cell \<open>(x, y)\<close> is the
  diagonal neighbour plus one when \<open>l ! (x - 1)\<close> equals \<open>r ! (y - 1)\<close> under the predicate, and
  the larger of the upper and the left neighbour otherwise.
\<close>

theorem TableContext_recurrence:
  assumes "\<forall>k < length r. ctx k = None"
  shows "\<exists>t. fst (TableContext eq ctx (New l r)) = Inr t \<and>
           length t = length l + 1 \<and>
           (\<forall>x \<le> length l. length (t ! x) = length r + 1) \<and>
           (\<forall>y \<le> length r. t ! 0 ! y = 0) \<and>
           (\<forall>x \<le> length l. t ! x ! 0 = 0) \<and>
           (\<forall>x y. 1 \<le> x \<and> x \<le> length l \<and> 1 \<le> y \<and> y \<le> length r \<longrightarrow>
              t ! x ! y =
                (if eq (l ! (x - 1)) (r ! (y - 1)) then t ! (x - 1) ! (y - 1) + 1
                 else max (t ! (x - 1) ! y) (t ! x ! (y - 1))))"
proof -
  let ?t = "tableSpec eq l r"
  have 1: "fst (TableContext eq ctx (New l r)) = Inr ?t"
    by (simp add: TableContext_New[OF assms])
  have 2: "length ?t = length l + 1" by (rule tableSpec_dims)
  have 3: "\<forall>x \<le> length l. length (?t ! x) = length r + 1" by (simp add: tableSpec_dims)
  have 4: "\<forall>y \<le> length r. ?t ! 0 ! y = 0" by (simp add: tableSpec_nth)
  have 5: "\<forall>x \<le> length l. ?t ! x ! 0 = 0" by (simp add: tableSpec_nth)
  have 6: "\<forall>x y. 1 \<le> x \<and> x \<le> length l \<and> 1 \<le> y \<and> y \<le> length r \<longrightarrow>
              ?t ! x ! y =
                (if eq (l ! (x - 1)) (r ! (y - 1)) then ?t ! (x - 1) ! (y - 1) + 1
                 else max (?t ! (x - 1) ! y) (?t ! x ! (y - 1)))"
  proof (intro allI impI)
    fix x y assume a: "1 \<le> x \<and> x \<le> length l \<and> 1 \<le> y \<and> y \<le> length r"
    then obtain x' y' where xy: "x = Suc x'" "y = Suc y'"
      by (metis One_nat_def Suc_le_D)
    have e: "?t ! x ! y = entry eq l r x y" "?t ! (x - 1) ! (y - 1) = entry eq l r x' y'"
      "?t ! (x - 1) ! y = entry eq l r x' y" "?t ! x ! (y - 1) = entry eq l r x y'"
      using a xy by (simp_all add: tableSpec_nth)
    show "?t ! x ! y =
                (if eq (l ! (x - 1)) (r ! (y - 1)) then ?t ! (x - 1) ! (y - 1) + 1
                 else max (?t ! (x - 1) ! y) (?t ! x ! (y - 1)))"
      unfolding e using entry_match[of eq l x' r y'] entry_no_match[of eq l x' r y'] xy
      by simp
  qed
  from 1 2 3 4 5 6 show ?thesis by blast
qed

theorem TableContext_recurrence_witness:
  "\<exists>t. fst (TableContext (=) Background (New [1::nat, 2] [2, 1, 2])) = Inr t \<and>
       t = [[0, 0, 0, 0], [0, 0, 1, 1], [0, 1, 1, 2]] \<and>
       t ! 2 ! 3 = t ! 1 ! 2 + 1 \<and> t ! 2 ! 2 = max (t ! 1 ! 2) (t ! 2 ! 1)"
proof -
  have live: "\<forall>k < length [2::nat, 1, 2]. Background k = None"
    by (simp add: Background_def)
  from TableContext_recurrence[OF live, of "(=)" "[1, 2]"] obtain t where
    t: "fst (TableContext (=) Background (New [1::nat, 2] [2, 1, 2])) = Inr t" and
    rec: "\<forall>x y. 1 \<le> x \<and> x \<le> length [1::nat, 2] \<and> 1 \<le> y \<and> y \<le> length [2::nat, 1, 2] \<longrightarrow>
              t ! x ! y =
                (if [1::nat, 2] ! (x - 1) = [2::nat, 1, 2] ! (y - 1) then t ! (x - 1) ! (y - 1) + 1
                 else max (t ! (x - 1) ! y) (t ! x ! (y - 1)))"
    by blast
  have tv: "t = [[0, 0, 0, 0], [0, 0, 1, 1], [0, 1, 1, 2]]"
    using t small_table by simp
  have a: "t ! 2 ! 3 = t ! 1 ! 2 + 1"
    using rec[rule_format, of 2 3] by simp
  have b: "t ! 2 ! 2 = max (t ! 1 ! 2) (t ! 2 ! 1)"
    using rec[rule_format, of 2 2] by simp
  from t tv a b show ?thesis by blast
qed

text \<open>
  Claim C3. For every pair of sequences, the list that \<^verbatim>\<open>IndexPairs\<close> returns on a fresh
  session (and \<^verbatim>\<open>IndexPairsContext\<close> under a context that no poll finds done) increases
  strictly in both the \<^verbatim>\<open>Left\<close> and the \<^verbatim>\<open>Right\<close> coordinate from each pair to the next,
  and every pair \<open>(i, j)\<close> of the list indexes the two sequences at elements that are equal
  under the predicate.
\<close>

theorem IndexPairs_ascending_matched:
  assumes "\<forall>k < length r. ctx k = None"
  shows "\<exists>ps. fst (IndexPairs eq (New l r)) = Inr (Some ps) \<and>
           fst (IndexPairsContext eq ctx (New l r)) = Inr ps \<and>
           (\<forall>i. Suc i < length ps \<longrightarrow>
              Left (ps ! i) < Left (ps ! Suc i) \<and> Right (ps ! i) < Right (ps ! Suc i)) \<and>
           (\<forall>p \<in> set ps.
              0 \<le> Left p \<and> Left p < int (length l) \<and> 0 \<le> Right p \<and> Right p < int (length r) \<and>
              eq (l ! nat (Left p)) (r ! nat (Right p)))"
proof -
  let ?ps = "pairsSpec eq l r (length l) (length r)"
  have 1: "fst (IndexPairs eq (New l r)) = Inr (Some ?ps)"
    by (simp add: IndexPairs_New)
  have 2: "fst (IndexPairsContext eq ctx (New l r)) = Inr ?ps"
    by (simp add: IndexPairsContext_New[OF assms])
  have "ascending ?ps" by (rule pairsSpec_ascending) simp_all
  then have 3: "\<forall>i. Suc i < length ?ps \<longrightarrow>
      Left (?ps ! i) < Left (?ps ! Suc i) \<and> Right (?ps ! i) < Right (?ps ! Suc i)"
    by (simp add: ascending_adjacent)
  have "\<And>p. p \<in> set ?ps \<Longrightarrow> matched eq l r (length l) (length r) p"
    by (rule pairsSpec_matched[rotated 2]) simp_all
  then have 4: "\<forall>p \<in> set ?ps.
      0 \<le> Left p \<and> Left p < int (length l) \<and> 0 \<le> Right p \<and> Right p < int (length r) \<and>
      eq (l ! nat (Left p)) (r ! nat (Right p))"
    by (simp add: matched_def)
  from 1 2 3 4 show ?thesis by blast
qed

theorem IndexPairs_ascending_matched_witness:
  "\<exists>ps. fst (IndexPairs (=) (New [''A'', ''B'', ''C'', ''B'', ''D'', ''A'', ''B'']
                                 [''B'', ''D'', ''C'', ''A'', ''B'', ''A''])) = Inr (Some ps) \<and>
        ps = [\<lparr>Left = 1, Right = 0\<rparr>, \<lparr>Left = 2, Right = 2\<rparr>,
              \<lparr>Left = 3, Right = 4\<rparr>, \<lparr>Left = 5, Right = 5\<rparr>] \<and>
        Left (ps ! 0) < Left (ps ! 1) \<and> Right (ps ! 0) < Right (ps ! 1) \<and>
        [''A'', ''B'', ''C'', ''B'', ''D'', ''A'', ''B''] ! nat (Left (ps ! 2)) =
        [''B'', ''D'', ''C'', ''A'', ''B'', ''A''] ! nat (Right (ps ! 2))"
proof -
  let ?l = "[''A'', ''B'', ''C'', ''B'', ''D'', ''A'', ''B'']"
  let ?r = "[''B'', ''D'', ''C'', ''A'', ''B'', ''A'']"
  have live: "\<forall>k < length ?r. Background k = None"
    by (simp add: Background_def)
  from IndexPairs_ascending_matched[OF live, of "(=)" ?l] obtain ps where
    ps: "fst (IndexPairs (=) (New ?l ?r)) = Inr (Some ps)" and
    asc: "\<forall>i. Suc i < length ps \<longrightarrow>
              Left (ps ! i) < Left (ps ! Suc i) \<and> Right (ps ! i) < Right (ps ! Suc i)" and
    mat: "\<forall>p \<in> set ps. 0 \<le> Left p \<and> Left p < int (length ?l) \<and> 0 \<le> Right p \<and>
              Right p < int (length ?r) \<and> ?l ! nat (Left p) = ?r ! nat (Right p)"
    by blast
  have pv: "ps = [\<lparr>Left = 1, Right = 0\<rparr>, \<lparr>Left = 2, Right = 2\<rparr>,
              \<lparr>Left = 3, Right = 4\<rparr>, \<lparr>Left = 5, Right = 5\<rparr>]"
    using ps scenario1_IndexPairs by simp
  have a: "Left (ps ! 0) < Left (ps ! 1) \<and> Right (ps ! 0) < Right (ps ! 1)"
    using asc[rule_format, of 0] pv by simp
  have "ps ! 2 \<in> set ps" using pv by simp
  then have b: "?l ! nat (Left (ps ! 2)) = ?r ! nat (Right (ps ! 2))"
    using mat by blast
  from ps pv a b show ?thesis by blast
qed

text \<open>
  Claim C4. For every pair of sequences, the sequence that \<^verbatim>\<open>Values\<close> returns is as long
  as the result of \<^verbatim>\<open>Length\<close>, and its element at position \<open>i\<close> is the left element at
  the \<^verbatim>\<open>Left\<close> index of the pair at position \<open>i\<close> of \<^verbatim>\<open>IndexPairs\<close>. The three results
  are those of fresh sessions, and also those of \<^verbatim>\<open>IndexPairs\<close> and \<^verbatim>\<open>Length\<close> called on
  the session that \<^verbatim>\<open>Values\<close> leaves.
\<close>

theorem Values_follow_IndexPairs:
  "\<exists>vs ps n.
     fst (Values eq (New l r)) = Inr (Some vs) \<and>
     fst (IndexPairs eq (New l r)) = Inr (Some ps) \<and>
     fst (Length eq (New l r)) = Inr n \<and>
     fst (IndexPairs eq (snd (Values eq (New l r)))) = Inr (Some ps) \<and>
     fst (Length eq (snd (Values eq (New l r)))) = Inr n \<and>
     int (length vs) = n \<and> length vs = length ps \<and>
     (\<forall>i < length vs.
        0 \<le> Left (ps ! i) \<and> Left (ps ! i) < int (length l) \<and> vs ! i = l ! nat (Left (ps ! i)))"
proof -
  let ?vs = "valuesSpec eq l r"
  let ?ps = "pairsSpec eq l r (length l) (length r)"
  let ?n = "entry eq l r (length l) (length r)"
  have 1: "fst (Values eq (New l r)) = Inr (Some ?vs)" by (simp add: Values_New)
  have 2: "fst (IndexPairs eq (New l r)) = Inr (Some ?ps)" by (simp add: IndexPairs_New)
  have 3: "fst (Length eq (New l r)) = Inr ?n" by (simp add: Length_New)
  have 4: "fst (IndexPairs eq (snd (Values eq (New l r)))) = Inr (Some ?ps)"
    by (simp add: Values_New IndexPairs_def IndexPairsContext_def)
  have 5: "fst (Length eq (snd (Values eq (New l r)))) = Inr ?n"
    by (simp add: Values_New Length_def LengthContext_def TableContext_def cell_tableSpec)
  have 6: "int (length ?vs) = ?n" by (rule valuesSpec_length)
  have 7: "length ?vs = length ?ps" by (simp add: valuesSpec_def)
  have 8: "\<forall>i < length ?vs.
        0 \<le> Left (?ps ! i) \<and> Left (?ps ! i) < int (length l) \<and> ?vs ! i = l ! nat (Left (?ps ! i))"
  proof (intro allI impI)
    fix i assume i: "i < length ?vs"
    then have "?ps ! i \<in> set ?ps" by (simp add: valuesSpec_def)
    then have "matched eq l r (length l) (length r) (?ps ! i)"
      by (rule pairsSpec_matched[rotated 2]) simp_all
    then show "0 \<le> Left (?ps ! i) \<and> Left (?ps ! i) < int (length l) \<and> ?vs ! i = l ! nat (Left (?ps ! i))"
      using i by (simp add: matched_def valuesSpec_def)
  qed
  from 1 2 3 4 5 6 7 8 show ?thesis by blast
qed

theorem Values_follow_IndexPairs_witness:
  "\<exists>vs ps. fst (Values (=) (New [''A'', ''B'', ''C'', ''B'', ''D'', ''A'', ''B'']
                                 [''B'', ''D'', ''C'', ''A'', ''B'', ''A''])) = Inr (Some vs) \<and>
      fst (IndexPairs (=) (New [''A'', ''B'', ''C'', ''B'', ''D'', ''A'', ''B'']
                                 [''B'', ''D'', ''C'', ''A'', ''B'', ''A''])) = Inr (Some ps) \<and>
      vs = [''B'', ''C'', ''B'', ''A''] \<and>
      ps = [\<lparr>Left = 1, Right = 0\<rparr>, \<lparr>Left = 2, Right = 2\<rparr>,
              \<lparr>Left = 3, Right = 4\<rparr>, \<lparr>Left = 5, Right = 5\<rparr>] \<and>
      vs ! 3 = [''A'', ''B'', ''C'', ''B'', ''D'', ''A'', ''B''] ! nat (Left (ps ! 3))"
proof -
  let ?l = "[''A'', ''B'', ''C'', ''B'', ''D'', ''A'', ''B'']"
  let ?r = "[''B'', ''D'', ''C'', ''A'', ''B'', ''A'']"
  from Values_follow_IndexPairs[of "(=)" ?l ?r] obtain vs ps where
    vs: "fst (Values (=) (New ?l ?r)) = Inr (Some vs)" and
    ps: "fst (IndexPairs (=) (New ?l ?r)) = Inr (Some ps)" and
    el: "\<forall>i < length vs. 0 \<le> Left (ps ! i) \<and> Left (ps ! i) < int (length ?l) \<and>
           vs ! i = ?l ! nat (Left (ps ! i))"
    by blast
  have vv: "vs = [''B'', ''C'', ''B'', ''A'']" using vs scenario1_Values by simp
  have pv: "ps = [\<lparr>Left = 1, Right = 0\<rparr>, \<lparr>Left = 2, Right = 2\<rparr>,
              \<lparr>Left = 3, Right = 4\<rparr>, \<lparr>Left = 5, Right = 5\<rparr>]"
    using ps scenario1_IndexPairs by simp
  have "vs ! 3 = ?l ! nat (Left (ps ! 3))"
    using el[rule_format, of 3] vv by simp
  with vs ps vv pv show ?thesis by blast
qed

text \<open>
  Claim C5, amended. For every pair of sequences whose right sequence is not empty and
  every signal that has fired before the call, each of \<^verbatim>\<open>TableContext\<close>,
  \<^verbatim>\<open>LengthContext\<close>, \<^verbatim>\<open>IndexPairsContext\<close> and \<^verbatim>\<open>ValuesContext\<close> called on a fresh
  session returns the Cancelled error of the signal and leaves the session as it was
  constructed, with nothing cached; a following call under a signal that no poll finds
  done returns a result.
\<close>

theorem cancelled_fresh_session:
  assumes "r \<noteq> []" and "ctx 0 = Some e"
  shows "TableContext eq ctx (New l r) = (Inl (Cancelled e), New l r) \<and>
         LengthContext eq ctx (New l r) = (Inl (Cancelled e), New l r) \<and>
         IndexPairsContext eq ctx (New l r) = (Inl (Cancelled e), New l r) \<and>
         ValuesContext eq ctx (New l r) = (Inl (Cancelled e), New l r) \<and>
         (\<forall>ctx'. (\<forall>k < length r. ctx' k = None) \<longrightarrow>
            (\<exists>t n ps vs.
               fst (TableContext eq ctx' (snd (TableContext eq ctx (New l r)))) = Inr t \<and>
               fst (LengthContext eq ctx' (snd (LengthContext eq ctx (New l r)))) = Inr n \<and>
               fst (IndexPairsContext eq ctx' (snd (IndexPairsContext eq ctx (New l r)))) = Inr ps \<and>
               fst (ValuesContext eq ctx' (snd (ValuesContext eq ctx (New l r)))) = Inr vs))"
proof -
  have t: "TableContext eq ctx (New l r) = (Inl (Cancelled e), New l r)"
    using assms by (rule TableContext_New_cancelled)
  have n: "LengthContext eq ctx (New l r) = (Inl (Cancelled e), New l r)"
    by (simp add: LengthContext_def t)
  have p: "IndexPairsContext eq ctx (New l r) = (Inl (Cancelled e), New l r)"
    by (simp add: IndexPairsContext_def t)
  have v: "ValuesContext eq ctx (New l r) = (Inl (Cancelled e), New l r)"
    by (simp add: ValuesContext_def p)
  have "\<forall>ctx'. (\<forall>k < length r. ctx' k = None) \<longrightarrow>
            (\<exists>t n ps vs.
               fst (TableContext eq ctx' (snd (TableContext eq ctx (New l r)))) = Inr t \<and>
               fst (LengthContext eq ctx' (snd (LengthContext eq ctx (New l r)))) = Inr n \<and>
               fst (IndexPairsContext eq ctx' (snd (IndexPairsContext eq ctx (New l r)))) = Inr ps \<and>
               fst (ValuesContext eq ctx' (snd (ValuesContext eq ctx (New l r)))) = Inr vs)"
  proof (intro allI impI)
    fix ctx' :: ctx assume live: "\<forall>k < length r. ctx' k = None"
    show "\<exists>t n ps vs.
               fst (TableContext eq ctx' (snd (TableContext eq ctx (New l r)))) = Inr t \<and>
               fst (LengthContext eq ctx' (snd (LengthContext eq ctx (New l r)))) = Inr n \<and>
               fst (IndexPairsContext eq ctx' (snd (IndexPairsContext eq ctx (New l r)))) = Inr ps \<and>
               fst (ValuesContext eq ctx' (snd (ValuesContext eq ctx (New l r)))) = Inr vs"
      unfolding t n p v snd_conv
      by (simp add: TableContext_New[OF live] LengthContext_New[OF live]
            IndexPairsContext_New[OF live] ValuesContext_New[OF live])
  qed
  with t n p v show ?thesis by blast
qed

theorem cancelled_fresh_session_witness:
  "ValuesContext (=) (cancelled Canceled) (New [''a''] [''a'']) =
     (Inl (Cancelled Canceled), New [''a''] [''a'']) \<and>
   (\<exists>vs. fst (ValuesContext (=) Background
             (snd (ValuesContext (=) (cancelled Canceled) (New [''a''] [''a''])))) = Inr vs)"
proof -
  have a: "[''a''] \<noteq> []" and b: "cancelled Canceled 0 = Some Canceled"
    by (simp_all add: cancelled_def)
  have live: "\<forall>k < length [''a'']. Background k = None"
    by (simp add: Background_def)
  from cancelled_fresh_session[where r = "[''a'']" and ctx = "cancelled Canceled" and e = Canceled
         and eq = "(=)" and l = "[''a'']"] a b live
  show ?thesis by blast
qed

text \<open>
  Claim C5 as stated, for every pair of sequences, fails where the right sequence is
  empty: the signal is polled once per element of the right sequence, so no poll takes
  place, the call returns its result and the result is cached.
\<close>

theorem cancelled_fresh_session_counterexample:
  "fst (TableContext (=) (cancelled Canceled) (New [''a''] [])) = Inr [[0], [0]] \<and>
   table (snd (TableContext (=) (cancelled Canceled) (New [''a''] []))) = Some [[0], [0]] \<and>
   fst (ValuesContext (=) (cancelled Canceled) (New [''a''] [])) = Inr []"
  by (simp add: empty_right_TableContext empty_right_ValuesContext)

text \<open>
  Claim C6. Whenever \<^verbatim>\<open>TableContext\<close>, \<^verbatim>\<open>LengthContext\<close>, \<^verbatim>\<open>IndexPairsContext\<close> or
  \<^verbatim>\<open>ValuesContext\<close> returns a Cancelled error, on any session and under any signal, the
  session it leaves is the session it was given: neither the table in progress nor a
  result that depends on it is cached, and a later call starts from the same cache.
\<close>

theorem Cancelled_leaves_cache:
  "(fst (TableContext eq ctx s) = Inl (Cancelled e) \<longrightarrow> snd (TableContext eq ctx s) = s) \<and>
   (fst (LengthContext eq ctx s) = Inl (Cancelled e) \<longrightarrow> snd (LengthContext eq ctx s) = s) \<and>
   (fst (IndexPairsContext eq ctx s) = Inl (Cancelled e) \<longrightarrow> snd (IndexPairsContext eq ctx s) = s) \<and>
   (fst (ValuesContext eq ctx s) = Inl (Cancelled e) \<longrightarrow> snd (ValuesContext eq ctx s) = s)"
proof (intro conjI impI)
  assume "fst (TableContext eq ctx s) = Inl (Cancelled e)"
  then show "snd (TableContext eq ctx s) = s"
    using TableContext_Inl[of eq ctx s] by (cases "TableContext eq ctx s") simp
next
  assume "fst (LengthContext eq ctx s) = Inl (Cancelled e)"
  then show "snd (LengthContext eq ctx s) = s"
    using LengthContext_Cancelled[of eq ctx s] by (cases "LengthContext eq ctx s") simp
next
  assume "fst (IndexPairsContext eq ctx s) = Inl (Cancelled e)"
  then show "snd (IndexPairsContext eq ctx s) = s"
    using IndexPairsContext_Cancelled[of eq ctx s] by (cases "IndexPairsContext eq ctx s") simp
next
  assume "fst (ValuesContext eq ctx s) = Inl (Cancelled e)"
  then show "snd (ValuesContext eq ctx s) = s"
    using ValuesContext_Cancelled[of eq ctx s] by (cases "ValuesContext eq ctx s") simp
qed

theorem Cancelled_leaves_cache_witness:
  "fst (ValuesContext (=) (cancelAfter 1 DeadlineExceeded) (New [''a'', ''b''] [''b'', ''a''])) =
     Inl (Cancelled DeadlineExceeded) \<and>
   snd (ValuesContext (=) (cancelAfter 1 DeadlineExceeded) (New [''a'', ''b''] [''b'', ''a''])) =
     New [''a'', ''b''] [''b'', ''a''] \<and>
   snd (IndexPairsContext (=) (cancelAfter 1 DeadlineExceeded) (New [''a'', ''b''] [''b'', ''a''])) =
     New [''a'', ''b''] [''b'', ''a'']"
  using Cancelled_leaves_cache[of "(=)" "cancelAfter 1 DeadlineExceeded" "New [''a'', ''b''] [''b'', ''a'']"
          DeadlineExceeded]
        late_cancel_Values late_cancel_IndexPairs
  by simp



text \<open>
  Claim C8. When at least one of the two sequences is empty, \<^verbatim>\<open>Length\<close> returns 0,
  \<^verbatim>\<open>IndexPairs\<close> an empty list and \<^verbatim>\<open>Values\<close> an empty sequence, and under every signal
  each entry point with a context either returns a Cancelled error or the same empty
  result: no index is out of range.
\<close>

theorem empty_sequence_results:
  assumes "l = [] \<or> r = []"
  shows "fst (Length eq (New l r)) = Inr 0 \<and>
         fst (IndexPairs eq (New l r)) = Inr (Some []) \<and>
         fst (Values eq (New l r)) = Inr (Some []) \<and>
         (\<forall>ctx.
            ((\<exists>e. fst (TableContext eq ctx (New l r)) = Inl (Cancelled e)) \<or>
               (\<exists>t. fst (TableContext eq ctx (New l r)) = Inr t)) \<and>
            ((\<exists>e. fst (LengthContext eq ctx (New l r)) = Inl (Cancelled e)) \<or>
               fst (LengthContext eq ctx (New l r)) = Inr 0) \<and>
            ((\<exists>e. fst (IndexPairsContext eq ctx (New l r)) = Inl (Cancelled e)) \<or>
               fst (IndexPairsContext eq ctx (New l r)) = Inr []) \<and>
            ((\<exists>e. fst (ValuesContext eq ctx (New l r)) = Inl (Cancelled e)) \<or>
               fst (ValuesContext eq ctx (New l r)) = Inr []))"
proof -
  note z = entry_empty[OF assms, of eq] pairsSpec_empty[OF assms, of eq] valuesSpec_empty[OF assms, of eq]
  have 1: "fst (Length eq (New l r)) = Inr 0" by (simp add: Length_New z)
  have 2: "fst (IndexPairs eq (New l r)) = Inr (Some [])" by (simp add: IndexPairs_New z)
  have 3: "fst (Values eq (New l r)) = Inr (Some [])" by (simp add: Values_New z)
  have 4: "\<forall>ctx.
            ((\<exists>e. fst (TableContext eq ctx (New l r)) = Inl (Cancelled e)) \<or>
               (\<exists>t. fst (TableContext eq ctx (New l r)) = Inr t)) \<and>
            ((\<exists>e. fst (LengthContext eq ctx (New l r)) = Inl (Cancelled e)) \<or>
               fst (LengthContext eq ctx (New l r)) = Inr 0) \<and>
            ((\<exists>e. fst (IndexPairsContext eq ctx (New l r)) = Inl (Cancelled e)) \<or>
               fst (IndexPairsContext eq ctx (New l r)) = Inr []) \<and>
            ((\<exists>e. fst (ValuesContext eq ctx (New l r)) = Inl (Cancelled e)) \<or>
               fst (ValuesContext eq ctx (New l r)) = Inr [])"
  proof (intro allI conjI)
    fix ctx :: ctx
    show "(\<exists>e. fst (TableContext eq ctx (New l r)) = Inl (Cancelled e)) \<or>
               (\<exists>t. fst (TableContext eq ctx (New l r)) = Inr t)"
      using TableContext_New_outcome[of eq ctx l r] by auto
    show "(\<exists>e. fst (LengthContext eq ctx (New l r)) = Inl (Cancelled e)) \<or>
               fst (LengthContext eq ctx (New l r)) = Inr 0"
      using LengthContext_New_outcome[of eq ctx l r] z by auto
    show "(\<exists>e. fst (IndexPairsContext eq ctx (New l r)) = Inl (Cancelled e)) \<or>
               fst (IndexPairsContext eq ctx (New l r)) = Inr []"
      using IndexPairsContext_New_outcome[of eq ctx l r] z by auto
    show "(\<exists>e. fst (ValuesContext eq ctx (New l r)) = Inl (Cancelled e)) \<or>
               fst (ValuesContext eq ctx (New l r)) = Inr []"
      using ValuesContext_New_outcome[of eq ctx l r] z by auto
  qed
  from 1 2 3 4 show ?thesis by blast
qed

theorem empty_sequence_results_witness:
  "fst (Length (=) (New [] [''X'', ''Y''])) = Inr 0 \<and>
   fst (IndexPairs (=) (New [] [''X'', ''Y''])) = Inr (Some []) \<and>
   fst (Values (=) (New [] [''X'', ''Y''])) = Inr (Some []) \<and>
   fst (ValuesContext (=) (cancelAfter 2 Canceled) (New [] [''X'', ''Y''])) = Inr []"
proof -
  have "fst (ValuesContext (=) (cancelAfter 2 Canceled) (New [] [''X'', ''Y''])) \<noteq>
      Inl (Cancelled Canceled)"
    by code_simp
  moreover have "fst (ValuesContext (=) (cancelAfter 2 Canceled) (New [] [''X'', ''Y''])) \<noteq>
      Inl (Cancelled DeadlineExceeded)"
    by code_simp
  ultimately have "\<not> (\<exists>e. fst (ValuesContext (=) (cancelAfter 2 Canceled) (New [] [''X'', ''Y''])) =
      Inl (Cancelled e))"
    by (metis ctx_error.exhaust)
  then show ?thesis
    using empty_sequence_results[of "[]" "[''X'', ''Y'']" "(=)"] by blast
qed

text \<open>
  Claim C9, amended. For every sequence \<open>A\<close> whose elements are each equal to themselves
  under the equality predicate, \<^verbatim>\<open>Length\<close> on a session with \<open>A\<close> on both sides returns
  the length of \<open>A\<close>.
\<close>

theorem Length_self:
  assumes "\<forall>a \<in> set A. eq a a"
  shows "fst (Length eq (New A A)) = Inr (int (length A))"
proof -
  let ?n = "entry eq A A (length A) (length A)"
  have "lcsLength eq A A (nat ?n)" by (rule entry_lcsLength)
  then obtain as bs where ab: "common eq A A as bs" "length as = nat ?n"
    and up: "\<And>as bs. common eq A A as bs \<Longrightarrow> length as \<le> nat ?n"
    unfolding lcsLength_def by blast
  have "list_all2 eq A A" using assms by (simp add: list_all2_same)
  then have "common eq A A A A" by (simp add: common_def)
  then have "length A \<le> nat ?n" by (rule up)
  moreover have "nat ?n \<le> length A" using common_length[OF ab(1)] ab(2) by simp
  moreover have "0 \<le> ?n" by (rule entry_nonneg)
  ultimately have "?n = int (length A)" by simp
  then show ?thesis by (simp add: Length_New)
qed

theorem Length_self_witness:
  "fst (Length (=) (New [''1'', ''2'', ''3''] [''1'', ''2'', ''3''])) = Inr 3"
  using Length_self[of "[''1'', ''2'', ''3'']" "(=)"] by simp

text \<open>
  Claim C9 as stated, for every sequence, fails on a sequence of one non-nil func value:
  \<^verbatim>\<open>reflect.DeepEqual\<close> does not find the value equal to itself, and \<^verbatim>\<open>Length\<close>
  returns 0.
\<close>

theorem Length_self_counterexample:
  "fst (Length DeepEqual_func (New [FuncValue 0] [FuncValue 0])) = Inr 0 \<and>
   fst (Length DeepEqual_func (New [FuncValue 0] [FuncValue 0])) \<noteq> Inr (int (length [FuncValue 0]))"
  by (simp add: func_Length)

text \<open>
  Claim C10. On every session, once \<^verbatim>\<open>TableContext\<close>, \<^verbatim>\<open>IndexPairsContext\<close> or
  \<^verbatim>\<open>ValuesContext\<close> has returned a result, a following call of the same entry point
  returns that result with no error and leaves the session unchanged under every signal
  \<open>ctx'\<close>, one that has already fired included: the cache is read before the signal is
  polled.
\<close>

theorem cache_precedes_cancellation:
  "(fst (TableContext eq ctx s) = Inr t \<longrightarrow>
      TableContext eq' ctx' (snd (TableContext eq ctx s)) = (Inr t, snd (TableContext eq ctx s))) \<and>
   (fst (IndexPairsContext eq ctx s) = Inr p \<longrightarrow>
      IndexPairsContext eq' ctx' (snd (IndexPairsContext eq ctx s)) =
        (Inr p, snd (IndexPairsContext eq ctx s))) \<and>
   (fst (ValuesContext eq ctx s) = Inr v \<longrightarrow>
      ValuesContext eq' ctx' (snd (ValuesContext eq ctx s)) = (Inr v, snd (ValuesContext eq ctx s)))"
proof (intro conjI impI)
  assume "fst (TableContext eq ctx s) = Inr t"
  then have "TableContext eq ctx s = (Inr t, snd (TableContext eq ctx s))"
    by (cases "TableContext eq ctx s") simp
  then have "table (snd (TableContext eq ctx s)) = Some t" by (rule TableContext_Inr)
  then show "TableContext eq' ctx' (snd (TableContext eq ctx s)) = (Inr t, snd (TableContext eq ctx s))"
    by (rule TableContext_cached)
next
  assume "fst (IndexPairsContext eq ctx s) = Inr p"
  then have "IndexPairsContext eq ctx s = (Inr p, snd (IndexPairsContext eq ctx s))"
    by (cases "IndexPairsContext eq ctx s") simp
  then have "indexPairs (snd (IndexPairsContext eq ctx s)) = Some p" by (rule IndexPairsContext_Inr)
  then show "IndexPairsContext eq' ctx' (snd (IndexPairsContext eq ctx s)) =
        (Inr p, snd (IndexPairsContext eq ctx s))"
    by (rule IndexPairsContext_cached)
next
  assume "fst (ValuesContext eq ctx s) = Inr v"
  then have "ValuesContext eq ctx s = (Inr v, snd (ValuesContext eq ctx s))"
    by (cases "ValuesContext eq ctx s") simp
  then have "values_cache (snd (ValuesContext eq ctx s)) = Some v" by (rule ValuesContext_Inr)
  then show "ValuesContext eq' ctx' (snd (ValuesContext eq ctx s)) = (Inr v, snd (ValuesContext eq ctx s))"
    by (rule ValuesContext_cached)
qed

theorem cache_precedes_cancellation_witness:
  "fst (TableContext (=) (cancelled Canceled)
          (snd (TableContext (=) Background (New [''a'', ''b''] [''b'', ''a''])))) =
     Inr [[0, 0, 0], [0, 0, 1], [0, 1, 1]] \<and>
   fst (IndexPairsContext (=) (cancelled Canceled)
          (snd (IndexPairsContext (=) Background (New [''a'', ''b''] [''b'', ''a''])))) =
     Inr [\<lparr>Left = 0, Right = 1\<rparr>] \<and>
   fst (ValuesContext (=) (cancelled Canceled)
          (snd (ValuesContext (=) Background (New [''a'', ''b''] [''b'', ''a''])))) =
     Inr [''a'']"
  using cache_precedes_cancellation[where eq = "(=)" and ctx = Background
          and s = "New [''a'', ''b''] [''b'', ''a'']"
          and t = "[[0, 0, 0], [0, 0, 1], [0, 1, 1]]" and eq' = "(=)" and ctx' = "cancelled Canceled"
          and p = "[\<lparr>Left = 0, Right = 1\<rparr>]" and v = "[''a'']"]
        two_by_two_TableContext two_by_two_IndexPairsContext two_by_two_ValuesContext
  by simp

end
